theory Spec2Isabelle
  imports Main "HOL-Library.Signed_Division"
begin

section \<open>Grid model: cells, fields and the request body\<close>

text \<open>
  The forest-fire route keeps cells as objects \<open>{ x, y, state, burnTime }\<close> whose state is
  one of the letters T (tree), B (burning) and E (empty). Coordinates and sizes are
  JavaScript numbers; they are modelled as mathematical integers. The selectors of the
  coordinates are called \<open>cell_x\<close> and \<open>cell_y\<close>.
\<close>

datatype CellState = T | B | E

record Cell =
  cell_x :: int
  cell_y :: int
  state :: CellState
  burnTime :: int

text \<open>
  A field as the client describes it when every element of \<open>cells\<close> is a cell object,
  as the type \<open>Cell[]\<close> says: a width, a height and the cells the client chose to send.
\<close>

record FieldJson =
  json_width :: int
  json_height :: int
  json_cells :: "Cell list"

text \<open>
  The \<open>field\<close> member of the request body as it arrives in JSON: \<open>cells\<close> may be missing
  or not iterable (\<open>None\<close>), and an element of it may be \<open>null\<close> (\<open>None\<close>); every other
  element is a cell object.
\<close>

record RequestField =
  req_width :: int
  req_height :: int
  req_cells :: "Cell option list option"

text \<open>
  The field held by a session. A JavaScript array may have holes (an assignment past
  the end leaves the skipped positions without an element), so a position holds
  \<open>Some cell\<close> or \<open>None\<close>.
\<close>

record Field =
  width :: int
  height :: int
  cells :: "Cell option list"
  coordMap :: "string \<rightharpoonup> nat"

record ForestFireParams =
  updateInterval :: int

text \<open>
  The body that \<open>request.json()\<close> gives: each of its three members may be missing. The
  values of \<open>coords\<close> are taken to be integers.
\<close>

record Body =
  body_field :: "RequestField option"
  body_params :: "ForestFireParams option"
  body_coords :: "(string \<rightharpoonup> int) option"

datatype exn = TypeError | DuplicateCoordinate | EngineError

subsection \<open>The key of a coordinate\<close>

text \<open>
  The template string \<open>`${cell.x},${cell.y}`\<close> prints both integers in decimal, a minus
  sign in front of a negative one, with a comma between them. The model prints every
  digit of every integer; JavaScript does so below \<open>10^21\<close> in magnitude and uses the
  exponent form from there on.
\<close>

definition digitChar :: "nat \<Rightarrow> char" where
  "digitChar d = ''0123456789'' ! d"

function digits :: "nat \<Rightarrow> string" where
  "digits n = (if n < 10 then [digitChar n] else digits (n div 10) @ [digitChar (n mod 10)])"
  by pat_completeness auto
termination
  by (relation "measure id") auto

definition numToString :: "int \<Rightarrow> string" where
  "numToString i = (if i < 0 then CHR ''-'' # digits (nat (- i)) else digits (nat i))"

definition coordString :: "int \<Rightarrow> int \<Rightarrow> string" where
  "coordString a b = numToString a @ '','' @ numToString b"

definition coordKey :: "Cell \<Rightarrow> string" where
  "coordKey cell = coordString (cell_x cell) (cell_y cell)"

subsection \<open>Dense reconstruction in POST\<close>

definition treeCell :: "int \<Rightarrow> int \<Rightarrow> Cell" where
  "treeCell a b = \<lparr>cell_x = a, cell_y = b, state = T, burnTime = 0\<rparr>"

text \<open>The inner loop \<open>for (let x = startX; x < endX; x++) cells.push(...)\<close>.\<close>

function pushRow :: "int \<Rightarrow> int \<Rightarrow> int \<Rightarrow> Cell option list \<Rightarrow> Cell option list" where
  "pushRow a endX b cs =
     (if a < endX then pushRow (a + 1) endX b (cs @ [Some (treeCell a b)]) else cs)"
  by pat_completeness auto
termination
  by (relation "measure (\<lambda>(a, endX, b, cs). nat (endX - a))") auto

text \<open>The outer loop \<open>for (let y = startY; y < endY; y++)\<close>.\<close>

function pushRows :: "int \<Rightarrow> int \<Rightarrow> int \<Rightarrow> int \<Rightarrow> Cell option list \<Rightarrow> Cell option list" where
  "pushRows b endY startX endX cs =
     (if b < endY then pushRows (b + 1) endY startX endX (pushRow startX endX b cs) else cs)"
  by pat_completeness auto
termination
  by (relation "measure (\<lambda>(b, endY, startX, endX, cs). nat (endY - b))") auto

text \<open>
  \<open>Math.floor(n / 2)\<close> is the floor division of HOL; \<open>n % 2\<close> is the truncating remainder
  \<open>smod\<close>, whose sign follows \<open>n\<close>.
\<close>

definition startOf :: "int \<Rightarrow> int" where
  "startOf n = - (n div 2)"

definition endOf :: "int \<Rightarrow> int" where
  "endOf n = n div 2 + (if n smod 2 = 0 then 0 else 1)"

definition allTrees :: "int \<Rightarrow> int \<Rightarrow> Cell option list" where
  "allTrees w h = pushRows (startOf h) (endOf h) (startOf w) (endOf w) []"

text \<open>
  The assignment \<open>arr[index] = v\<close>. An index inside the array replaces the element; an
  index past the end extends the array, the skipped positions staying holes. A negative
  number, and a number from \<open>2^32 - 1\<close> on, is not an array index: the assignment then
  sets an ordinary property and the elements stay as they are. (A JavaScript array has
  fewer than \<open>2^32\<close> elements, so there an index inside the array is always below
  \<open>2^32 - 1\<close>; the loops that push the trees are modelled without that limit, and an
  index inside the array replaces the element whatever its size.)
\<close>

definition setIndex :: "'a option list \<Rightarrow> int \<Rightarrow> 'a \<Rightarrow> 'a option list" where
  "setIndex arr i v =
     (if i < 0 then arr
      else if nat i < length arr then arr[nat i := Some v]
      else if 4294967295 \<le> i then arr
      else arr @ replicate (nat i - length arr) None @ [Some v])"

text \<open>
  The loop \<open>for (const cell of field.cells)\<close>: the position comes from the client's
  \<open>coords\<close>, looked up under the cell's key; a cell whose key is absent is skipped.
\<close>

fun overlay :: "(string \<rightharpoonup> int) \<Rightarrow> Cell list \<Rightarrow> Cell option list \<Rightarrow> Cell option list" where
  "overlay cm [] arr = arr"
| "overlay cm (cell # rest) arr =
     (case cm (coordKey cell) of
        None \<Rightarrow> overlay cm rest arr
      | Some index \<Rightarrow> overlay cm rest (setIndex arr index cell))"

definition reconstruct :: "FieldJson \<Rightarrow> (string \<rightharpoonup> int) \<Rightarrow> Cell option list" where
  "reconstruct f cm = overlay cm (json_cells f) (allTrees (json_width f) (json_height f))"

text \<open>
  The same loop over the cells as they arrive: at a \<open>null\<close> element the access \<open>cell.x\<close>
  throws a \<open>TypeError\<close>, and so does the \<open>for ... of\<close> itself when \<open>field.cells\<close> is missing
  or not iterable.
\<close>

fun overlayJson :: "(string \<rightharpoonup> int) \<Rightarrow> Cell option list \<Rightarrow> Cell option list \<Rightarrow> exn + Cell option list" where
  "overlayJson cm [] arr = Inr arr"
| "overlayJson cm (None # rest) arr = Inl TypeError"
| "overlayJson cm (Some cell # rest) arr =
     (case cm (coordKey cell) of
        None \<Rightarrow> overlayJson cm rest arr
      | Some index \<Rightarrow> overlayJson cm rest (setIndex arr index cell))"

definition reconstructJson :: "RequestField \<Rightarrow> (string \<rightharpoonup> int) \<Rightarrow> exn + Cell option list" where
  "reconstructJson f cm =
     (let trees = allTrees (req_width f) (req_height f) in
      case req_cells f of
        None \<Rightarrow> Inl TypeError
      | Some cs \<Rightarrow> overlayJson cm cs trees)"

text \<open>
  Modelled from the spec: \<open>generateCoordMap\<close> of \<open>algorithm/algorithm.ts\<close>, which is not
  among the sources. The spec describes it as building the index from the key of a
  coordinate to its position, failing with \<open>DuplicateCoordinate\<close> when two cells share a
  coordinate. A hole of the array has no coordinate and gets no entry.
\<close>

fun indexFrom :: "nat \<Rightarrow> Cell option list \<Rightarrow> (string \<rightharpoonup> nat) \<Rightarrow> exn + (string \<rightharpoonup> nat)" where
  "indexFrom i [] m = Inr m"
| "indexFrom i (None # cs) m = indexFrom (Suc i) cs m"
| "indexFrom i (Some c # cs) m =
     (if m (coordKey c) \<noteq> None then Inl DuplicateCoordinate
      else indexFrom (Suc i) cs (m(coordKey c \<mapsto> i)))"

definition generateCoordMap :: "Cell option list \<Rightarrow> exn + (string \<rightharpoonup> nat)" where
  "generateCoordMap cs = indexFrom 0 cs Map.empty"

section \<open>Sessions, streams and the registry\<close>

text \<open>
  A session object holds the field, the parameters, the index and an abort controller,
  of which only the flag \<open>signal.aborted\<close> is ever read.
\<close>

record Session =
  session_field :: Field
  session_params :: ForestFireParams
  session_coordMap :: "string \<rightharpoonup> nat"
  aborted :: bool

text \<open>
  \<open>findFlammableCells\<close> and \<open>calculateNextGeneration\<close> live in \<open>algorithm/algorithm.ts\<close>,
  which is not among the sources. A call of either is an input of the model: it returns
  a value or throws. The collection of flammable cells is only asked for its size, and
  so is the map of updated cells, apart from being sent; both are lists here, the map a
  list of key and cell.
\<close>

datatype 'a outcome = Returns 'a | Throws

record result =
  updatedCellsMap :: "(string \<times> Cell) list"
  result_flammableCells :: "string list"

datatype chunk = DeltaEvent "(string \<times> Cell) list" | EndEvent

text \<open>
  One \<open>ReadableStream\<close> made by GET, with the variables its \<open>start\<close> closes over: the
  session id, the session object (an address of the heap), \<open>flammableCells\<close>, the chunks
  enqueued so far, whether the stream is closed, and whether \<open>start\<close> is still suspended
  at the \<open>await\<close> of its loop.
\<close>

record Stream =
  sessionId :: string
  session :: nat
  flammableCells :: "string list"
  enqueued :: "chunk list"
  closed :: bool
  running :: bool

text \<open>The earlier variant of the route keeps one more local variable.\<close>

record Stream0 = Stream +
  simulationEnded :: bool

text \<open>
  \<open>controller.enqueue\<close> and \<open>controller.close\<close> throw a \<open>TypeError\<close> on a stream that is
  closed already (by an earlier \<open>close\<close> or by the consumer's cancel).
\<close>

definition enqueue :: "chunk \<Rightarrow> 'a Stream_scheme \<Rightarrow> exn + 'a Stream_scheme" where
  "enqueue c s = (if closed s then Inl TypeError else Inr (s\<lparr>enqueued := enqueued s @ [c]\<rparr>))"

definition close :: "'a Stream_scheme \<Rightarrow> exn + 'a Stream_scheme" where
  "close s = (if closed s then Inl TypeError else Inr (s\<lparr>closed := True\<rparr>))"

definition send :: "bool \<Rightarrow> (string \<times> Cell) list \<Rightarrow> 'a Stream_scheme \<Rightarrow> exn + 'a Stream_scheme" where
  "send ab m s = (if ab then Inr s else enqueue (DeltaEvent m) s)"

text \<open>
  How the body of the loop is left: by reaching its end, by \<open>break\<close>, or by an exception
  that the \<open>catch\<close> takes.
\<close>

datatype flow = Fallthrough | Break | Thrown

text \<open>
  The body of the loop of \<open>route.ts\<close> from the end of the wait on: the call of the
  engine, the delta, the end event. The first argument is \<open>signal.aborted\<close>, which no
  other code can change while the body runs.
\<close>

definition loopBody :: "bool \<Rightarrow> result outcome \<Rightarrow> Stream \<Rightarrow> Stream \<times> flow" where
  "loopBody ab eng s =
     (case eng of
        Throws \<Rightarrow> (s, Thrown)
      | Returns r \<Rightarrow>
          (let s1 = s\<lparr>flammableCells := result_flammableCells r\<rparr> in
           case (if length (updatedCellsMap r) > 0 then send ab (updatedCellsMap r) s1 else Inr s1) of
             Inl e \<Rightarrow> (s1, Thrown)
           | Inr s2 \<Rightarrow>
               if length (flammableCells s2) = 0
               then (case enqueue EndEvent s2 of
                       Inl e \<Rightarrow> (s2, Thrown)
                     | Inr s3 \<Rightarrow> (s3, Break))
               else (s2, Fallthrough)))"

text \<open>
  The \<open>finally\<close> block: \<open>controller.close()\<close>, then \<open>sessions.delete(sessionId)\<close>. When
  \<open>close\<close> throws, the deletion is not reached. The second component tells whether the
  deletion ran.
\<close>

definition finallyBlock :: "'a Stream_scheme \<Rightarrow> 'a Stream_scheme \<times> bool" where
  "finallyBlock s =
     (case close s of
        Inl e \<Rightarrow> (s\<lparr>running := False\<rparr>, False)
      | Inr s1 \<Rightarrow> (s1\<lparr>running := False\<rparr>, True))"

text \<open>
  What \<open>start\<close> does when the timer of its \<open>await\<close> fires: the body, then the test
  \<open>!signal.aborted\<close> of the \<open>while\<close>, then either the next \<open>await\<close> or the \<open>finally\<close>
  block.
\<close>

definition afterWait :: "bool \<Rightarrow> result outcome \<Rightarrow> Stream \<Rightarrow> Stream \<times> bool" where
  "afterWait ab eng s =
     (case loopBody ab eng s of
        (s1, Fallthrough) \<Rightarrow> if \<not> ab then (s1, False) else finallyBlock s1
      | (s1, Break) \<Rightarrow> finallyBlock s1
      | (s1, Thrown) \<Rightarrow> finallyBlock s1)"

text \<open>
  The beginning of \<open>start\<close>, run by the constructor of the stream: \<open>findFlammableCells\<close>,
  the first test of the \<open>while\<close>, and the first \<open>await\<close>.
\<close>

definition start :: "bool \<Rightarrow> string list outcome \<Rightarrow> Stream \<Rightarrow> Stream \<times> bool" where
  "start ab ff s =
     (case ff of
        Throws \<Rightarrow> finallyBlock s
      | Returns fc \<Rightarrow>
          (let s1 = s\<lparr>flammableCells := fc\<rparr> in
           if \<not> ab then (s1\<lparr>running := True\<rparr>, False) else finallyBlock s1))"

subsection \<open>The earlier variant of the loop\<close>

text \<open>
  The loop of the earlier route has no \<open>break\<close>: it sets \<open>simulationEnded\<close> after the end
  event and tests \<open>!signal.aborted && !simulationEnded\<close>.
\<close>

definition loopBody0 :: "bool \<Rightarrow> result outcome \<Rightarrow> Stream0 \<Rightarrow> Stream0 \<times> flow" where
  "loopBody0 ab eng s =
     (case eng of
        Throws \<Rightarrow> (s, Thrown)
      | Returns r \<Rightarrow>
          (let s1 = s\<lparr>flammableCells := result_flammableCells r\<rparr> in
           case (if length (updatedCellsMap r) > 0 then send ab (updatedCellsMap r) s1 else Inr s1) of
             Inl e \<Rightarrow> (s1, Thrown)
           | Inr s2 \<Rightarrow>
               if length (flammableCells s2) = 0
               then (case enqueue EndEvent s2 of
                       Inl e \<Rightarrow> (s2, Thrown)
                     | Inr s3 \<Rightarrow> (s3\<lparr>simulationEnded := True\<rparr>, Fallthrough))
               else (s2, Fallthrough)))"

definition afterWait0 :: "bool \<Rightarrow> result outcome \<Rightarrow> Stream0 \<Rightarrow> Stream0 \<times> bool" where
  "afterWait0 ab eng s =
     (case loopBody0 ab eng s of
        (s1, Fallthrough) \<Rightarrow>
          if \<not> ab \<and> \<not> simulationEnded s1 then (s1, False) else finallyBlock s1
      | (s1, Break) \<Rightarrow> finallyBlock s1
      | (s1, Thrown) \<Rightarrow> finallyBlock s1)"

definition start0 :: "bool \<Rightarrow> string list outcome \<Rightarrow> Stream0 \<Rightarrow> Stream0 \<times> bool" where
  "start0 ab ff s =
     (case ff of
        Throws \<Rightarrow> finallyBlock s
      | Returns fc \<Rightarrow>
          (let s1 = s\<lparr>flammableCells := fc, simulationEnded := False\<rparr> in
           if \<not> ab \<and> \<not> simulationEnded s1 then (s1\<lparr>running := True\<rparr>, False)
           else finallyBlock s1))"

subsection \<open>One stream against its environment\<close>

text \<open>
  What a stream meets at one firing of its timer: whether the consumer has cancelled
  the stream since the last firing (which closes it), the value of \<open>signal.aborted\<close> at
  the firing, and what the engine does.
\<close>

record tick =
  consumerCancelled :: bool
  abortedNow :: bool
  engine :: "result outcome"

text \<open>
  The run of a loop over the firings it is given: the stream at the end, the number of
  firings the loop took, and whether its \<open>finally\<close> block deleted the registry entry.
  A loop that has left \<open>start\<close> takes no further firing.
\<close>

fun runLoop :: "tick list \<Rightarrow> Stream \<times> bool \<Rightarrow> Stream \<times> nat \<times> bool" where
  "runLoop [] (s, d) = (s, 0, d)"
| "runLoop (t # ts) (s, d) =
     (if \<not> running s then (s, 0, d)
      else (let s1 = (if consumerCancelled t then s\<lparr>closed := True\<rparr> else s);
                (s', n, d') = runLoop ts (afterWait (abortedNow t) (engine t) s1)
            in (s', Suc n, d')))"

fun runLoop0 :: "tick list \<Rightarrow> Stream0 \<times> bool \<Rightarrow> Stream0 \<times> nat \<times> bool" where
  "runLoop0 [] (s, d) = (s, 0, d)"
| "runLoop0 (t # ts) (s, d) =
     (if \<not> running s then (s, 0, d)
      else (let s1 = (if consumerCancelled t then s\<lparr>closed := True\<rparr> else s);
                (s', n, d') = runLoop0 ts (afterWait0 (abortedNow t) (engine t) s1)
            in (s', Suc n, d')))"

subsection \<open>The server\<close>

text \<open>
  The module-level \<open>sessions\<close> map holds references to session objects, and every stream
  holds one too; the objects live in a heap. The streams made so far are numbered in
  the order of their creation.
\<close>

record server =
  sessions :: "string \<rightharpoonup> nat"
  heap :: "nat \<rightharpoonup> Session"
  nextAddr :: nat
  streams :: "Stream list"

definition initServer :: server where
  "initServer = \<lparr>sessions = Map.empty, heap = Map.empty, nextAddr = 0, streams = []\<rparr>"

datatype response =
    SessionCreated string
  | ErrorResponse string nat
  | StreamResponse nat
  | SuccessResponse

text \<open>The response the spec calls \<open>UnknownSession\<close>.\<close>

definition UnknownSession :: response where
  "UnknownSession = ErrorResponse ''Invalid session ID'' 400"

text \<open>
  POST, with the function that builds the index as its first argument. The second
  argument is the request: \<open>request.json()\<close> rejects, or the body it gives is \<open>null\<close> so
  that taking it apart throws (\<open>Throws\<close>), or it gives a body. The third argument is the
  value \<open>uuidv4()\<close> returns. Any exception inside the \<open>try\<close> gives the response 500 and
  leaves the registry as it was.
\<close>

definition POST_with ::
  "(Cell option list \<Rightarrow> exn + (string \<rightharpoonup> nat)) \<Rightarrow> Body outcome \<Rightarrow> string \<Rightarrow> server \<Rightarrow> response \<times> server" where
  "POST_with gen request uuid sv =
     (case request of
        Throws \<Rightarrow> (ErrorResponse ''Failed to create session'' 500, sv)
      | Returns body \<Rightarrow>
          (case (body_field body, body_params body, body_coords body) of
             (Some f, Some ps, Some cm) \<Rightarrow>
               (case reconstructJson f cm of
                  Inl e \<Rightarrow> (ErrorResponse ''Failed to create session'' 500, sv)
                | Inr fullCells \<Rightarrow>
                    (case gen fullCells of
                       Inl e \<Rightarrow> (ErrorResponse ''Failed to create session'' 500, sv)
                     | Inr m \<Rightarrow>
                         (let fullField = \<lparr>width = req_width f, height = req_height f,
                                           cells = fullCells, coordMap = m\<rparr>;
                              a = nextAddr sv
                          in (SessionCreated uuid,
                              sv\<lparr>sessions := (sessions sv)(uuid \<mapsto> a),
                                 heap := (heap sv)(a \<mapsto> \<lparr>session_field = fullField,
                                                           session_params = ps,
                                                           session_coordMap = m, aborted = False\<rparr>),
                                 nextAddr := Suc a\<rparr>))))
           | _ \<Rightarrow> (ErrorResponse ''Missing field or params'' 400, sv)))"

text \<open>POST as the route has it, with \<open>generateCoordMap\<close> building the index.\<close>

definition POST :: "Body outcome \<Rightarrow> string \<Rightarrow> server \<Rightarrow> response \<times> server" where
  "POST = POST_with generateCoordMap"

text \<open>
  The guard shared by GET and DELETE: the query parameter is missing or empty, or the
  registry has no such key.
\<close>

definition lookupSession :: "string option \<Rightarrow> server \<Rightarrow> response + (string \<times> nat \<times> Session)" where
  "lookupSession q sv =
     (case q of
        None \<Rightarrow> Inl (ErrorResponse ''Invalid session ID'' 400)
      | Some sid \<Rightarrow>
          if sid = [] \<or> sessions sv sid = None then Inl (ErrorResponse ''Invalid session ID'' 400)
          else (case sessions sv sid of
                  None \<Rightarrow> Inl (ErrorResponse ''Session not found'' 404)
                | Some a \<Rightarrow>
                    (case heap sv a of
                       None \<Rightarrow> Inl (ErrorResponse ''Session not found'' 404)
                     | Some se \<Rightarrow> Inr (sid, a, se))))"

definition abort :: "nat \<Rightarrow> server \<Rightarrow> server" where
  "abort a sv =
     (case heap sv a of
        None \<Rightarrow> sv
      | Some se \<Rightarrow> sv\<lparr>heap := (heap sv)(a \<mapsto> se\<lparr>aborted := True\<rparr>)\<rparr>)"

definition deleteSession :: "string \<Rightarrow> server \<Rightarrow> server" where
  "deleteSession sid sv = sv\<lparr>sessions := (sessions sv)(sid := None)\<rparr>"

definition isAborted :: "nat \<Rightarrow> server \<Rightarrow> bool" where
  "isAborted a sv = (case heap sv a of None \<Rightarrow> False | Some se \<Rightarrow> aborted se)"

text \<open>
  GET makes the stream, whose constructor runs \<open>start\<close> up to its first \<open>await\<close>, and
  answers with it.
\<close>

definition GET :: "string option \<Rightarrow> string list outcome \<Rightarrow> server \<Rightarrow> response \<times> server" where
  "GET q ff sv =
     (case lookupSession q sv of
        Inl r \<Rightarrow> (r, sv)
      | Inr (sid, a, se) \<Rightarrow>
          (let s0 = \<lparr>sessionId = sid, session = a, flammableCells = [], enqueued = [],
                     closed = False, running = False\<rparr>;
               (s, del) = start (aborted se) ff s0;
               sv1 = sv\<lparr>streams := streams sv @ [s]\<rparr>
           in (StreamResponse (length (streams sv)),
               if del then deleteSession sid sv1 else sv1)))"

definition DELETE :: "string option \<Rightarrow> server \<Rightarrow> response \<times> server" where
  "DELETE q sv =
     (case lookupSession q sv of
        Inl r \<Rightarrow> (r, sv)
      | Inr (sid, a, se) \<Rightarrow> (SuccessResponse, deleteSession sid (abort a sv)))"

text \<open>The timer of stream \<open>i\<close> fires. A stream that is not waiting has no timer.\<close>

definition timerFires :: "nat \<Rightarrow> result outcome \<Rightarrow> server \<Rightarrow> server" where
  "timerFires i eng sv =
     (if i < length (streams sv) \<and> running (streams sv ! i)
      then (let s = streams sv ! i;
                (s', del) = afterWait (isAborted (session s) sv) eng s;
                sv1 = sv\<lparr>streams := (streams sv)[i := s']\<rparr>
            in if del then deleteSession (sessionId s) sv1 else sv1)
      else sv)"

text \<open>
  The consumer of stream \<open>i\<close> goes away. The runtime closes the stream and calls the
  \<open>cancel\<close> of the source: abort, then delete. The runtime does so as long as the stream
  is readable, which it still is after \<open>controller.close()\<close> while chunks wait to be
  read. The model does not follow what the consumer has read: it lets the cancel
  arrive at any time, which covers every moment at which the runtime can deliver it.
\<close>

definition cancel :: "nat \<Rightarrow> server \<Rightarrow> server" where
  "cancel i sv =
     (if i < length (streams sv)
      then (let s = streams sv ! i;
                sv1 = sv\<lparr>streams := (streams sv)[i := s\<lparr>closed := True\<rparr>]\<rparr>
            in deleteSession (sessionId s) (abort (session s) sv1))
      else sv)"

datatype event =
    Post Body string
  | Get "string option" "string list outcome"
  | Delete "string option"
  | Timer nat "result outcome"
  | Cancel nat

text \<open>
  The events that can change the server. A POST whose body cannot be read changes
  nothing, so the event of a POST carries the body that was read.
\<close>

fun step :: "event \<Rightarrow> server \<Rightarrow> server" where
  "step (Post body uuid) sv = snd (POST (Returns body) uuid sv)"
| "step (Get q ff) sv = snd (GET q ff sv)"
| "step (Delete q) sv = snd (DELETE q sv)"
| "step (Timer i eng) sv = timerFires i eng sv"
| "step (Cancel i) sv = cancel i sv"

fun exec :: "event list \<Rightarrow> server \<Rightarrow> server" where
  "exec [] sv = sv"
| "exec (e # es) sv = exec es (step e sv)"

section \<open>Notions of the specification\<close>

text \<open>
  The bounding box of the spec: \<open>[-\<lfloor>w/2\<rfloor>, w - \<lfloor>w/2\<rfloor>) \<times> [-\<lfloor>h/2\<rfloor>, h - \<lfloor>h/2\<rfloor>)\<close>.
\<close>

definition inBox :: "int \<Rightarrow> int \<Rightarrow> int \<Rightarrow> int \<Rightarrow> bool" where
  "inBox w h a b \<longleftrightarrow> - (w div 2) \<le> a \<and> a < w - w div 2 \<and> - (h div 2) \<le> b \<and> b < h - h div 2"

text \<open>The row-major position of a coordinate, and the coordinate of a position.\<close>

definition rowMajor :: "int \<Rightarrow> int \<Rightarrow> int \<Rightarrow> int \<Rightarrow> int" where
  "rowMajor w h a b = (b + h div 2) * w + (a + w div 2)"

definition coordAt :: "int \<Rightarrow> int \<Rightarrow> nat \<Rightarrow> int \<times> int" where
  "coordAt w h k = (int k mod w - w div 2, int k div w - h div 2)"

definition boxCoords :: "int \<Rightarrow> int \<Rightarrow> (int \<times> int) list" where
  "boxCoords w h = map (coordAt w h) [0..<nat (w * h)]"

definition coordOf :: "Cell \<Rightarrow> int \<times> int" where
  "coordOf c = (cell_x c, cell_y c)"

text \<open>
  The \<open>coords\<close> a client sends when it numbers the box row by row: the key of every
  coordinate of the box, mapped to its row-major position.
\<close>

definition rowMajorCoords :: "int \<Rightarrow> int \<Rightarrow> (string \<rightharpoonup> int)" where
  "rowMajorCoords w h =
     map_of (map (\<lambda>(a, b). (coordString a b, rowMajor w h a b)) (boxCoords w h))"

text \<open>
  \<open>coords\<close> agrees with the row-major numbering on the cells supplied: the key of each
  is absent, or the cell lies in the box and its key is mapped to its own position.
\<close>

definition agrees :: "int \<Rightarrow> int \<Rightarrow> (string \<rightharpoonup> int) \<Rightarrow> Cell list \<Rightarrow> bool" where
  "agrees w h cm cs \<longleftrightarrow>
     list_all (\<lambda>c. cm (coordKey c) = None \<or>
                   (inBox w h (cell_x c) (cell_y c) \<and>
                    cm (coordKey c) = Some (rowMajor w h (cell_x c) (cell_y c)))) cs"

text \<open>
  The supplied cells are overrides placed by \<open>coords\<close>: each is burning or empty, lies in
  the box, and has its key mapped to its own position.
\<close>

definition overrides :: "int \<Rightarrow> int \<Rightarrow> (string \<rightharpoonup> int) \<Rightarrow> Cell list \<Rightarrow> bool" where
  "overrides w h cm cs \<longleftrightarrow>
     list_all (\<lambda>c. state c \<noteq> T \<and> inBox w h (cell_x c) (cell_y c) \<and>
                   cm (coordKey c) = Some (rowMajor w h (cell_x c) (cell_y c))) cs"

text \<open>The cells of a dense field that are not trees, in the order of their positions.\<close>

definition nonTreeCells :: "Cell option list \<Rightarrow> Cell list" where
  "nonTreeCells arr = concat (map (\<lambda>e. case e of None \<Rightarrow> [] | Some c \<Rightarrow> if state c \<noteq> T then [c] else []) arr)"

text \<open>
  Last write wins: of the supplied cells that share a coordinate, only the last one
  counts.
\<close>

fun lastWins :: "Cell list \<Rightarrow> Cell list" where
  "lastWins [] = []"
| "lastWins (c # cs) =
     (if list_ex (\<lambda>d. coordOf d = coordOf c) cs then lastWins cs else c # lastWins cs)"

text \<open>
  The last of the supplied cells that \<open>coords\<close> sends to position \<open>k\<close>, if there is one.
\<close>

fun lastAt :: "(string \<rightharpoonup> int) \<Rightarrow> nat \<Rightarrow> Cell list \<Rightarrow> Cell option" where
  "lastAt cm k [] = None"
| "lastAt cm k (c # cs) =
     (case lastAt cm k cs of
        Some d \<Rightarrow> Some d
      | None \<Rightarrow> if cm (coordKey c) = Some (int k) then Some c else None)"

text \<open>
  A stream of the earlier variant and one of \<open>route.ts\<close> look the same from outside:
  they agree on everything but the extra local variable.
\<close>

definition sameStream :: "Stream0 \<Rightarrow> Stream \<Rightarrow> bool" where
  "sameStream s0 s \<longleftrightarrow>
     sessionId s0 = sessionId s \<and> session s0 = session s \<and>
     flammableCells s0 = flammableCells s \<and> enqueued s0 = enqueued s \<and>
     closed s0 = closed s \<and> running s0 = running s"

text \<open>The values \<open>uuidv4()\<close> returned along a sequence of events.\<close>

fun postIds :: "event list \<Rightarrow> string list" where
  "postIds [] = []"
| "postIds (Post body uuid # es) = uuid # postIds es"
| "postIds (e # es) = postIds es"

text \<open>
  Invariants of the server. Every registered address has been allocated; no address is
  registered under two keys; a registered session exists and is not aborted; the
  session of a stream has been allocated and can only be registered under the id of
  the stream; a stream that is closed or has left its loop has no registry entry for
  its session; and a stream that has left its loop is closed.
\<close>

definition regBounded :: "server \<Rightarrow> bool" where
  "regBounded sv \<longleftrightarrow> (\<forall>k a. sessions sv k = Some a \<longrightarrow> a < nextAddr sv)"

definition regInjective :: "server \<Rightarrow> bool" where
  "regInjective sv \<longleftrightarrow> (\<forall>k k' a. sessions sv k = Some a \<and> sessions sv k' = Some a \<longrightarrow> k = k')"

definition regLive :: "server \<Rightarrow> bool" where
  "regLive sv \<longleftrightarrow> (\<forall>k a. sessions sv k = Some a \<longrightarrow> (\<exists>se. heap sv a = Some se \<and> \<not> aborted se))"

definition streamsBounded :: "server \<Rightarrow> bool" where
  "streamsBounded sv \<longleftrightarrow> (\<forall>s\<in>set (streams sv). session s < nextAddr sv)"

definition streamsKeyed :: "server \<Rightarrow> bool" where
  "streamsKeyed sv \<longleftrightarrow>
     (\<forall>s\<in>set (streams sv). \<forall>k. sessions sv k = Some (session s) \<longrightarrow> k = sessionId s)"

definition streamsReleased :: "server \<Rightarrow> bool" where
  "streamsReleased sv \<longleftrightarrow>
     (\<forall>s\<in>set (streams sv). closed s \<or> \<not> running s \<longrightarrow> (\<forall>k. sessions sv k \<noteq> Some (session s)))"

definition streamsEnded :: "server \<Rightarrow> bool" where
  "streamsEnded sv \<longleftrightarrow> (\<forall>s\<in>set (streams sv). \<not> running s \<longrightarrow> closed s)"

definition wellFormed :: "server \<Rightarrow> bool" where
  "wellFormed sv \<longleftrightarrow>
     regBounded sv \<and> regInjective sv \<and> regLive sv \<and> streamsBounded sv \<and>
     streamsKeyed sv \<and> streamsReleased sv \<and> streamsEnded sv"

text \<open>
  What holds along a sequence of events in which \<open>uuidv4()\<close> never repeats a value, the
  ids drawn so far being \<open>ids\<close>: every registered id has been drawn, and so has the id
  of every stream; and the id of a stream leads to the session of that stream or to
  none.
\<close>

definition traceInv :: "string list \<Rightarrow> server \<Rightarrow> bool" where
  "traceInv ids sv \<longleftrightarrow>
     (\<forall>k a. sessions sv k = Some a \<longrightarrow> k \<in> set ids) \<and>
     (\<forall>s\<in>set (streams sv). sessionId s \<in> set ids \<and>
        (\<forall>a. sessions sv (sessionId s) = Some a \<longrightarrow> a = session s))"

text \<open>
  What holds of every stream along such a sequence: its id is not empty; and the id
  leads to its session, or the session has been aborted, or a stream of the session
  has left its loop.
\<close>

definition streamsAttached :: "server \<Rightarrow> bool" where
  "streamsAttached sv \<longleftrightarrow>
     (\<forall>s\<in>set (streams sv). sessionId s \<noteq> [] \<and>
        (sessions sv (sessionId s) = Some (session s) \<or> isAborted (session s) sv \<or>
         (\<exists>t\<in>set (streams sv). session t = session s \<and> \<not> running t)))"

text \<open>
  A well-formed request body for the examples: a field of one cell, no supplied cells,
  empty \<open>coords\<close>.
\<close>

definition sampleBody :: Body where
  "sampleBody =
     \<lparr>body_field = Some \<lparr>req_width = 1, req_height = 1, req_cells = Some []\<rparr>,
      body_params = Some \<lparr>updateInterval = 1\<rparr>,
      body_coords = Some Map.empty\<rparr>"

section \<open>Properties of the key of a coordinate\<close>

declare digits.simps [simp del] pushRow.simps [simp del] pushRows.simps [simp del]

lemma digits_small: "n < 10 \<Longrightarrow> digits n = [digitChar n]"
  by (subst digits.simps) simp

lemma digitChar_inj: "d < 10 \<Longrightarrow> e < 10 \<Longrightarrow> digitChar d = digitChar e \<Longrightarrow> d = e"
  unfolding digitChar_def by (subst (asm) nth_eq_iff_index_eq) simp_all

lemma digitChar_mem: "d < 10 \<Longrightarrow> digitChar d \<in> set ''0123456789''"
  unfolding digitChar_def by (rule nth_mem) simp

lemma digits_chars: "set (digits n) \<subseteq> set ''0123456789''"
proof (induction n rule: digits.induct)
  case (1 n)
  show ?case
  proof (cases "n < 10")
    case True
    then show ?thesis using digitChar_mem [of n] by (subst digits.simps) simp
  next
    case False
    have "digitChar (n mod 10) \<in> set ''0123456789''" by (rule digitChar_mem) simp
    with False 1 show ?thesis by (subst digits.simps) simp
  qed
qed

lemma digits_nonempty: "digits n \<noteq> []"
  by (subst digits.simps) simp

lemma digits_length_ge2: "10 \<le> n \<Longrightarrow> 2 \<le> length (digits n)"
  using digits_nonempty [of "n div 10"]
  by (subst digits.simps) (cases "digits (n div 10)"; simp)

lemma digits_inj: "digits n = digits m \<Longrightarrow> n = m"
proof (induction n arbitrary: m rule: digits.induct)
  case (1 n)
  show ?case
  proof (cases "n < 10")
    case n: True
    show ?thesis
    proof (cases "m < 10")
      case True
      with n 1(2) show ?thesis by (simp add: digits_small digitChar_inj)
    next
      case False
      then have "2 \<le> length (digits m)" by (simp add: digits_length_ge2)
      moreover have "length (digits n) = 1" using n by (simp add: digits_small)
      ultimately show ?thesis using 1(2) by simp
    qed
  next
    case n: False
    show ?thesis
    proof (cases "m < 10")
      case True
      from n have "2 \<le> length (digits n)" by (simp add: digits_length_ge2)
      moreover have "length (digits m) = 1" using True by (simp add: digits_small)
      ultimately show ?thesis using 1(2) by simp
    next
      case False
      have "digits n = digits (n div 10) @ [digitChar (n mod 10)]"
        using n by (subst digits.simps) simp
      moreover have "digits m = digits (m div 10) @ [digitChar (m mod 10)]"
        using False by (subst digits.simps) simp
      ultimately have e: "digits (n div 10) = digits (m div 10)"
        and d: "digitChar (n mod 10) = digitChar (m mod 10)"
        using 1(2) by simp_all
      from 1(1) [OF n e] have "n div 10 = m div 10" .
      moreover from d have "n mod 10 = m mod 10" by (rule digitChar_inj [rotated 2]) simp_all
      ultimately show ?thesis by (metis div_mult_mod_eq)
    qed
  qed
qed


lemma digits_avoid: "c \<notin> set ''0123456789'' \<Longrightarrow> c \<notin> set (digits n)"
  using digits_chars [of n] by blast

lemma digits_no_minus: "CHR ''-'' \<notin> set (digits n)"
  by (rule digits_avoid) simp

lemma digits_no_comma: "CHR '','' \<notin> set (digits n)"
  by (rule digits_avoid) simp

lemma numToString_no_comma: "CHR '','' \<notin> set (numToString i)"
  by (simp add: numToString_def digits_no_comma)

lemma minus_digits_neq: "CHR ''-'' # digits n \<noteq> digits m"
proof
  assume "CHR ''-'' # digits n = digits m"
  then have "CHR ''-'' \<in> set (digits m)" by (metis list.set_intros(1))
  with digits_no_minus [of m] show False by simp
qed

lemma numToString_inj: "numToString i = numToString j \<Longrightarrow> i = j"
proof -
  assume a: "numToString i = numToString j"
  show ?thesis
  proof (cases "i < 0")
    case i: True
    show ?thesis
    proof (cases "j < 0")
      case True
      with i a have "digits (nat (- i)) = digits (nat (- j))" by (simp add: numToString_def)
      then have "nat (- i) = nat (- j)" by (rule digits_inj)
      with i True show ?thesis by simp
    next
      case False
      with i a minus_digits_neq [of "nat (- i)" "nat j"] show ?thesis by (simp add: numToString_def)
    qed
  next
    case i: False
    show ?thesis
    proof (cases "j < 0")
      case True
      with i a minus_digits_neq [of "nat (- j)" "nat i"] show ?thesis by (simp add: numToString_def)
    next
      case False
      with i a have "digits (nat i) = digits (nat j)" by (simp add: numToString_def)
      then have "nat i = nat j" by (rule digits_inj)
      with i False show ?thesis by simp
    qed
  qed
qed

lemma split_at_separator:
  "c \<notin> set xs \<Longrightarrow> c \<notin> set xs' \<Longrightarrow> xs @ c # ys = xs' @ c # ys' \<Longrightarrow> xs = xs' \<and> ys = ys'"
proof (induction xs arbitrary: xs')
  case Nil
  then show ?case by (cases xs') simp_all
next
  case (Cons a xs)
  show ?case
  proof (cases xs')
    case Nil
    with Cons.prems show ?thesis by simp
  next
    case (Cons b zs)
    with Cons.prems have "a = b" and "xs @ c # ys = zs @ c # ys'" and "c \<notin> set xs" and "c \<notin> set zs"
      by simp_all
    with Cons.IH [of zs] Cons show ?thesis by simp
  qed
qed


lemma coordString_inj: "coordString a b = coordString a' b' \<Longrightarrow> a = a' \<and> b = b'"
proof -
  assume e: "coordString a b = coordString a' b'"
  from e have "numToString a @ CHR '','' # numToString b = numToString a' @ CHR '','' # numToString b'"
    by (simp add: coordString_def)
  from split_at_separator [OF numToString_no_comma numToString_no_comma this]
  show ?thesis by (simp add: numToString_inj)
qed

section \<open>The enumeration of the trees\<close>

lemma pushRow_eq: "pushRow a e b cs = cs @ map (\<lambda>i. Some (treeCell i b)) [a..e - 1]"
proof (induction a e b cs rule: pushRow.induct)
  case (1 a endX b cs)
  show ?case
  proof (cases "a < endX")
    case True
    then have "[a..endX - 1] = a # [a + 1..endX - 1]" by (intro upto_rec1) simp
    with True 1 show ?thesis by (subst pushRow.simps) simp
  next
    case False
    then show ?thesis by (subst pushRow.simps) simp
  qed
qed

lemma pushRows_eq:
  "pushRows b e sx ex cs =
     cs @ concat (map (\<lambda>j. map (\<lambda>i. Some (treeCell i j)) [sx..ex - 1]) [b..e - 1])"
proof (induction b e sx ex cs rule: pushRows.induct)
  case (1 b endY startX endX cs)
  show ?case
  proof (cases "b < endY")
    case True
    then have "[b..endY - 1] = b # [b + 1..endY - 1]" by (intro upto_rec1) simp
    with True 1 show ?thesis by (subst pushRows.simps) (simp add: pushRow_eq)
  next
    case False
    then show ?thesis by (subst pushRows.simps) simp
  qed
qed


lemma upto_as_upt: "[a..a + int n - 1] = map (\<lambda>i. a + int i) [0..<n]"
proof (induction n)
  case 0
  then show ?case by simp
next
  case (Suc n)
  have "[a..a + int (Suc n) - 1] = [a..a + int (Suc n) - 1 - 1] @ [a + int (Suc n) - 1]"
    by (intro upto_rec2) simp
  also have "a + int (Suc n) - 1 = a + int n" by simp
  finally show ?case using Suc by simp
qed

lemma concat_rows:
  "concat (map (\<lambda>j. map (\<lambda>i. f i j) [0..<W]) [0..<H]) = map (\<lambda>k. f (k mod W) (k div W)) [0..<W * H]"
proof (induction H)
  case 0
  then show ?case by simp
next
  case (Suc H)
  have "[0..<W * Suc H] = [0..<W * H + W]" by (simp add: add.commute)
  also have "\<dots> = [0..<W * H] @ [W * H..<W * H + W]" by (simp only: upt_add_eq_append [OF le0])
  also have "[W * H..<W * H + W] = map (\<lambda>i. i + W * H) [0..<W]"
    by (simp add: map_add_upt add.commute)
  finally have split: "[0..<W * Suc H] = [0..<W * H] @ map (\<lambda>i. i + W * H) [0..<W]" .
  have last: "map (\<lambda>k. f (k mod W) (k div W)) (map (\<lambda>i. i + W * H) [0..<W]) = map (\<lambda>i. f i H) [0..<W]"
    by simp
  have "concat (map (\<lambda>j. map (\<lambda>i. f i j) [0..<W]) [0..<Suc H])
      = concat (map (\<lambda>j. map (\<lambda>i. f i j) [0..<W]) [0..<H]) @ map (\<lambda>i. f i H) [0..<W]"
    by simp
  also have "\<dots> = map (\<lambda>k. f (k mod W) (k div W)) [0..<W * H] @ map (\<lambda>i. f i H) [0..<W]"
    by (simp only: Suc)
  also have "\<dots> = map (\<lambda>k. f (k mod W) (k div W)) [0..<W * Suc H]"
    by (simp only: split map_append last)
  finally show ?case .
qed

lemma smod2_pos: "0 < (n::int) \<Longrightarrow> n smod 2 = n mod 2"
  by (simp add: smod_int_alt_def)

lemma endOf_pos: "0 < n \<Longrightarrow> endOf n = startOf n + n"
proof -
  assume n: "0 < n"
  have "n div 2 + (if n mod 2 = 0 then 0 else 1) = - (n div 2) + n" by presburger
  with n show ?thesis by (simp add: endOf_def startOf_def smod2_pos)
qed


lemma endOf_odd: "0 < n \<Longrightarrow> odd n \<Longrightarrow> endOf n = n div 2 + 1"
  by (simp add: endOf_def smod2_pos odd_iff_mod_2_eq_one)

lemma endOf_even: "even n \<Longrightarrow> endOf n = n div 2"
proof -
  assume "even n"
  then have "n smod 2 = 0" by (auto simp: smod_int_alt_def)
  then show ?thesis by (simp add: endOf_def)
qed


lemma allTrees_eq:
  assumes "0 < w" "0 < h"
  shows "allTrees w h = map (\<lambda>k. Some (treeCell (fst (coordAt w h k)) (snd (coordAt w h k)))) [0..<nat (w * h)]"
proof -
  define W where "W = nat w"
  define H where "H = nat h"
  have w: "w = int W" and h: "h = int H" using assms by (simp_all add: W_def H_def)
  have ex: "[startOf w..endOf w - 1] = map (\<lambda>i. startOf w + int i) [0..<W]"
    using upto_as_upt [of "startOf w" W] assms by (simp add: endOf_pos w)
  have ey: "[startOf h..endOf h - 1] = map (\<lambda>i. startOf h + int i) [0..<H]"
    using upto_as_upt [of "startOf h" H] assms by (simp add: endOf_pos h)
  have "allTrees w h =
      concat (map (\<lambda>j. map (\<lambda>i. Some (treeCell (startOf w + int i) (startOf h + int j))) [0..<W]) [0..<H])"
    by (simp add: allTrees_def pushRows_eq ex ey comp_def)
  also have "\<dots> = map (\<lambda>k. Some (treeCell (startOf w + int (k mod W)) (startOf h + int (k div W)))) [0..<W * H]"
    by (rule concat_rows)
  also have "W * H = nat (w * h)" by (simp add: w h nat_mult_distrib)
  also have "(\<lambda>k. Some (treeCell (startOf w + int (k mod W)) (startOf h + int (k div W))))
      = (\<lambda>k. Some (treeCell (fst (coordAt w h k)) (snd (coordAt w h k))))"
    by (simp add: coordAt_def startOf_def w zmod_int zdiv_int)
  finally show ?thesis .
qed

lemma length_allTrees: "0 < w \<Longrightarrow> 0 < h \<Longrightarrow> length (allTrees w h) = nat (w * h)"
  by (simp add: allTrees_eq)

lemma nth_allTrees:
  "0 < w \<Longrightarrow> 0 < h \<Longrightarrow> k < nat (w * h) \<Longrightarrow>
     allTrees w h ! k = Some (treeCell (fst (coordAt w h k)) (snd (coordAt w h k)))"
  by (simp add: allTrees_eq)

lemma rowMajor_bounds:
  assumes "0 < w" "0 < h" "inBox w h a b"
  shows "0 \<le> rowMajor w h a b" and "rowMajor w h a b < w * h"
proof -
  define i where "i = a + w div 2"
  define j where "j = b + h div 2"
  have i: "0 \<le> i" "i < w" and j: "0 \<le> j" "j \<le> h - 1"
    using assms(3) by (simp_all add: inBox_def i_def j_def)
  have r: "rowMajor w h a b = j * w + i" by (simp add: rowMajor_def i_def j_def)
  from j(1) assms(1) have "0 \<le> j * w" by simp
  with i(1) show "0 \<le> rowMajor w h a b" by (simp add: r)
  from j(2) assms(1) have "j * w \<le> (h - 1) * w" by (intro mult_right_mono) simp_all
  then have "j * w + i < (h - 1) * w + w" using i(2) by simp
  also have "(h - 1) * w + w = w * h" by (simp add: algebra_simps)
  finally show "rowMajor w h a b < w * h" by (simp add: r)
qed

lemma coordAt_rowMajor:
  assumes "0 < w" "0 < h" "inBox w h a b"
  shows "coordAt w h (nat (rowMajor w h a b)) = (a, b)"
proof -
  define i where "i = a + w div 2"
  define j where "j = b + h div 2"
  have i: "0 \<le> i" "i < w"
    using assms(3) by (simp_all add: inBox_def i_def)
  have r: "rowMajor w h a b = j * w + i" by (simp add: rowMajor_def i_def j_def)
  have n: "int (nat (rowMajor w h a b)) = j * w + i"
    using rowMajor_bounds(1) [OF assms] by (simp add: r)
  have "(j * w + i) mod w = i" using i by simp
  moreover have "(j * w + i) div w = j" using i assms(1) by simp
  ultimately have "coordAt w h (nat (rowMajor w h a b)) = (i - w div 2, j - h div 2)"
    by (simp only: coordAt_def n)
  then show ?thesis by (simp add: i_def j_def)
qed

lemma coordAt_inBox:
  assumes "0 < w" "0 < h" "k < nat (w * h)"
  shows "inBox w h (fst (coordAt w h k)) (snd (coordAt w h k))"
proof -
  have "k < nat h * nat w" using assms by (simp add: nat_mult_distrib mult.commute)
  then have "k div nat w < nat h" by (rule less_mult_imp_div_less)
  then have "int (k div nat w) < h" using assms(2) by simp
  then have kd: "int k div w < h" using assms(1) by (simp add: zdiv_int)
  have "0 \<le> int k mod w" "int k mod w < w" using assms(1) by simp_all
  moreover have "0 \<le> int k div w" using assms(1) by (simp add: pos_imp_zdiv_nonneg_iff)
  moreover note kd
  ultimately show ?thesis by (simp add: inBox_def coordAt_def)
qed

lemma rowMajor_coordAt:
  "rowMajor w h (fst (coordAt w h k)) (snd (coordAt w h k)) = int k"
  by (simp add: rowMajor_def coordAt_def)

section \<open>The overlay of the supplied cells\<close>

lemma overlay_inside:
  assumes "\<forall>c\<in>set cs. \<forall>i. cm (coordKey c) = Some i \<longrightarrow> 0 \<le> i \<and> nat i < length arr"
  shows "length (overlay cm cs arr) = length arr
       \<and> (\<forall>k<length arr. overlay cm cs arr ! k =
            (case lastAt cm k cs of Some d \<Rightarrow> Some d | None \<Rightarrow> arr ! k))"
  using assms
proof (induction cs arbitrary: arr)
  case Nil
  then show ?case by simp
next
  case (Cons c cs)
  show ?case
  proof (cases "cm (coordKey c)")
    case None
    from Cons.prems have "\<forall>c\<in>set cs. \<forall>i. cm (coordKey c) = Some i \<longrightarrow> 0 \<le> i \<and> nat i < length arr"
      by simp
    from Cons.IH [OF this] None show ?thesis by (simp split: option.splits)
  next
    case (Some i)
    with Cons.prems have i: "0 \<le> i" "nat i < length arr" by simp_all
    define arr' where "arr' = arr[nat i := Some c]"
    have len: "length arr' = length arr" by (simp add: arr'_def)
    from Cons.prems have "\<forall>c\<in>set cs. \<forall>i. cm (coordKey c) = Some i \<longrightarrow> 0 \<le> i \<and> nat i < length arr'"
      by (simp add: len)
    note ih = Cons.IH [OF this]
    have ov: "overlay cm (c # cs) arr = overlay cm cs arr'"
      using Some i by (simp add: setIndex_def arr'_def)
    have st: "overlay cm cs arr' ! k = (case lastAt cm k (c # cs) of Some d \<Rightarrow> Some d | None \<Rightarrow> arr ! k)"
      if k: "k < length arr" for k
    proof -
      from ih k len have e: "overlay cm cs arr' ! k = (case lastAt cm k cs of Some d \<Rightarrow> Some d | None \<Rightarrow> arr' ! k)"
        by simp
      have eq: "(i = int k) = (k = nat i)" using i(1) by auto
      show ?thesis
      proof (cases "lastAt cm k cs")
        case None
        then show ?thesis using e Some k i by (simp add: arr'_def eq nth_list_update)
      next
        case (Some d)
        then show ?thesis using e by simp
      qed
    qed
    from ih len have "length (overlay cm cs arr') = length arr" by simp
    with st show ?thesis unfolding ov by blast
  qed
qed

lemma lastAt_Some:
  "lastAt cm k cs = Some d \<Longrightarrow> d \<in> set cs \<and> cm (coordKey d) = Some (int k)"
  by (induction cs) (auto split: option.splits if_splits)

lemma lastAt_None:
  "lastAt cm k cs = None \<longleftrightarrow> (\<forall>d\<in>set cs. cm (coordKey d) \<noteq> Some (int k))"
  by (induction cs) (auto split: option.splits if_splits)

lemma setIndex_at:
  "0 \<le> i \<Longrightarrow> i < 4294967295 \<Longrightarrow>
     nat i < length (setIndex arr i v) \<and> setIndex arr i v ! nat i = Some v"
  by (simp add: setIndex_def nth_append)

lemma setIndex_keep:
  "k < length arr \<Longrightarrow> j \<noteq> int k \<Longrightarrow>
     k < length (setIndex arr j v) \<and> setIndex arr j v ! k = arr ! k"
  by (auto simp: setIndex_def nth_append)

lemma overlay_keep:
  "\<forall>d\<in>set cs. cm (coordKey d) \<noteq> Some (int k) \<Longrightarrow> k < length arr \<Longrightarrow>
     k < length (overlay cm cs arr) \<and> overlay cm cs arr ! k = arr ! k"
proof (induction cs arbitrary: arr)
  case Nil
  then show ?case by simp
next
  case (Cons c cs)
  from Cons.prems(1) have r: "\<forall>d\<in>set cs. cm (coordKey d) \<noteq> Some (int k)" by simp
  show ?case
  proof (cases "cm (coordKey c)")
    case None
    with Cons.IH [OF r Cons.prems(2)] show ?thesis by simp
  next
    case (Some j)
    with Cons.prems(1) have "j \<noteq> int k" by auto
    from setIndex_keep [OF Cons.prems(2) this, of c]
    have l: "k < length (setIndex arr j c)" and e: "setIndex arr j c ! k = arr ! k" by simp_all
    from Cons.IH [OF r l] e Some show ?thesis by simp
  qed
qed

lemma overlay_append: "overlay cm (xs @ ys) arr = overlay cm ys (overlay cm xs arr)"
  by (induction xs arbitrary: arr) (simp_all split: option.splits)

lemma overlay_placed:
  assumes "cm (coordKey c) = Some i" "0 \<le> i" "i < 4294967295"
    and "\<forall>d\<in>set rest. cm (coordKey d) \<noteq> Some i"
  shows "nat i < length (overlay cm (cs @ c # rest) arr)
       \<and> overlay cm (cs @ c # rest) arr ! nat i = Some c"
proof -
  define arr1 where "arr1 = setIndex (overlay cm cs arr) i c"
  from setIndex_at [OF assms(2,3), of "overlay cm cs arr" c]
  have l: "nat i < length arr1" and e: "arr1 ! nat i = Some c" by (simp_all add: arr1_def)
  from assms(2,4) have "\<forall>d\<in>set rest. cm (coordKey d) \<noteq> Some (int (nat i))" by simp
  from overlay_keep [OF this l] e
  have "nat i < length (overlay cm rest arr1) \<and> overlay cm rest arr1 ! nat i = Some c" by simp
  moreover have "overlay cm (cs @ c # rest) arr = overlay cm rest arr1"
    using assms(1) by (simp add: overlay_append arr1_def)
  ultimately show ?thesis by simp
qed

lemma overlay_filter:
  "overlay cm (filter (\<lambda>c. cm (coordKey c) \<noteq> None) cs) arr = overlay cm cs arr"
  by (induction cs arbitrary: arr) (auto split: option.splits)





lemma reconstruct_placed:
  assumes "cm (coordKey c) = Some i" "0 \<le> i" "i < 4294967295"
    and "\<forall>d\<in>set rest. cm (coordKey d) \<noteq> Some i"
  shows "nat i < length (reconstruct \<lparr>json_width = w, json_height = h, json_cells = cs @ c # rest\<rparr> cm)
       \<and> reconstruct \<lparr>json_width = w, json_height = h, json_cells = cs @ c # rest\<rparr> cm ! nat i = Some c"
  using overlay_placed [OF assms] by (simp add: reconstruct_def)

lemma reconstruct_untouched:
  assumes "0 < w" "0 < h" "inBox w h a b"
    and "\<forall>d\<in>set cs. cm (coordKey d) \<noteq> Some (rowMajor w h a b)"
  shows "reconstruct \<lparr>json_width = w, json_height = h, json_cells = cs\<rparr> cm ! nat (rowMajor w h a b)
       = Some (treeCell a b)"
proof -
  let ?k = "nat (rowMajor w h a b)"
  from rowMajor_bounds [OF assms(1-3)] have k: "?k < nat (w * h)" and i: "int ?k = rowMajor w h a b"
    by (simp_all add: nat_less_iff)
  from assms(4) i have "\<forall>d\<in>set cs. cm (coordKey d) \<noteq> Some (int ?k)" by simp
  from overlay_keep [OF this, of "allTrees w h"] k assms(1,2)
  have "overlay cm cs (allTrees w h) ! ?k = allTrees w h ! ?k" by (simp add: length_allTrees)
  also have "\<dots> = Some (treeCell a b)"
    by (simp add: nth_allTrees [OF assms(1,2) k] coordAt_rowMajor [OF assms(1-3)])
  finally show ?thesis by (simp add: reconstruct_def)
qed

section \<open>The dense field under agreeing coords\<close>

lemma agrees_inside:
  assumes "0 < w" "0 < h" "agrees w h cm cs"
  shows "\<forall>c\<in>set cs. \<forall>i. cm (coordKey c) = Some i \<longrightarrow> 0 \<le> i \<and> nat i < length (allTrees w h)"
proof (intro ballI allI impI)
  fix c i
  assume c: "c \<in> set cs" and i: "cm (coordKey c) = Some i"
  from assms(3) c i have b: "inBox w h (cell_x c) (cell_y c)" and e: "i = rowMajor w h (cell_x c) (cell_y c)"
    by (auto simp: agrees_def list_all_iff)
  from rowMajor_bounds [OF assms(1,2) b] assms(1,2)
  show "0 \<le> i \<and> nat i < length (allTrees w h)"
    by (simp add: e length_allTrees nat_less_iff)
qed

lemma dense_length:
  assumes "0 < w" "0 < h" "agrees w h cm cs"
  shows "length (overlay cm cs (allTrees w h)) = nat (w * h)"
  using overlay_inside [OF agrees_inside [OF assms]] assms(1,2) by (simp add: length_allTrees)

lemma dense_nth:
  assumes "0 < w" "0 < h" "agrees w h cm cs" "k < nat (w * h)"
  shows "overlay cm cs (allTrees w h) ! k =
     (case lastAt cm k cs of
        Some d \<Rightarrow> Some d
      | None \<Rightarrow> Some (treeCell (fst (coordAt w h k)) (snd (coordAt w h k))))"
proof -
  from overlay_inside [OF agrees_inside [OF assms(1-3)]] assms(1,2,4)
  have "overlay cm cs (allTrees w h) ! k =
      (case lastAt cm k cs of Some d \<Rightarrow> Some d | None \<Rightarrow> allTrees w h ! k)"
    by (simp add: length_allTrees)
  then show ?thesis by (simp add: nth_allTrees [OF assms(1,2,4)] split: option.splits)
qed

lemma lastAt_coord:
  assumes "0 < w" "0 < h" "agrees w h cm cs" "lastAt cm k cs = Some d"
  shows "coordOf d = coordAt w h k"
proof -
  from lastAt_Some [OF assms(4)] have d: "d \<in> set cs" and i: "cm (coordKey d) = Some (int k)"
    by simp_all
  from assms(3) d i have b: "inBox w h (cell_x d) (cell_y d)" and e: "int k = rowMajor w h (cell_x d) (cell_y d)"
    by (auto simp: agrees_def list_all_iff)
  from coordAt_rowMajor [OF assms(1,2) b] e [symmetric] show ?thesis by (simp add: coordOf_def)
qed

lemma dense_coord:
  assumes "0 < w" "0 < h" "agrees w h cm cs" "k < nat (w * h)"
  shows "map_option coordOf (overlay cm cs (allTrees w h) ! k) = Some (coordAt w h k)"
proof (cases "lastAt cm k cs")
  case None
  then show ?thesis by (simp add: dense_nth [OF assms] coordOf_def treeCell_def)
next
  case (Some d)
  with lastAt_coord [OF assms(1-3) Some] show ?thesis by (simp add: dense_nth [OF assms])
qed

lemma dense_coords:
  assumes "0 < w" "0 < h" "agrees w h cm cs"
  shows "map (map_option coordOf) (overlay cm cs (allTrees w h)) = map Some (boxCoords w h)"
proof (rule nth_equalityI)
  show "length (map (map_option coordOf) (overlay cm cs (allTrees w h))) = length (map Some (boxCoords w h))"
    by (simp add: dense_length [OF assms] boxCoords_def)
next
  fix k
  assume "k < length (map (map_option coordOf) (overlay cm cs (allTrees w h)))"
  then have k: "k < nat (w * h)" by (simp add: dense_length [OF assms])
  then show "map (map_option coordOf) (overlay cm cs (allTrees w h)) ! k = map Some (boxCoords w h) ! k"
    using dense_coord [OF assms k] by (simp add: dense_length [OF assms] boxCoords_def)
qed

lemma coordAt_inj:
  "coordAt w h k = coordAt w h k' \<Longrightarrow> k = k'"
proof -
  assume "coordAt w h k = coordAt w h k'"
  then have "rowMajor w h (fst (coordAt w h k)) (snd (coordAt w h k))
      = rowMajor w h (fst (coordAt w h k')) (snd (coordAt w h k'))" by simp
  then have "int k = int k'" by (simp only: rowMajor_coordAt)
  then show ?thesis by simp
qed

lemma boxCoords_distinct: "distinct (boxCoords w h)"
  unfolding boxCoords_def
  by (simp add: distinct_map inj_on_def coordAt_inj)

lemma set_boxCoords:
  assumes "0 < w" "0 < h"
  shows "set (boxCoords w h) = {(a, b). inBox w h a b}"
proof (rule set_eqI)
  fix p :: "int \<times> int"
  obtain a b where p: "p = (a, b)" by (cases p)
  show "p \<in> set (boxCoords w h) \<longleftrightarrow> p \<in> {(a, b). inBox w h a b}"
  proof
    assume "p \<in> set (boxCoords w h)"
    then obtain k where k: "k < nat (w * h)" and e: "p = coordAt w h k"
      by (auto simp: boxCoords_def)
    from coordAt_inBox [OF assms k] show "p \<in> {(a, b). inBox w h a b}"
      by (simp add: e case_prod_beta)
  next
    assume "p \<in> {(a, b). inBox w h a b}"
    then have b: "inBox w h a b" by (simp add: p)
    from rowMajor_bounds [OF assms b] have "nat (rowMajor w h a b) < nat (w * h)"
      by (simp add: nat_less_iff)
    moreover from coordAt_rowMajor [OF assms b] have "coordAt w h (nat (rowMajor w h a b)) = p"
      by (simp add: p)
    ultimately have "p \<in> coordAt w h ` {0..<nat (w * h)}" by (intro image_eqI [where x = "nat (rowMajor w h a b)"]) simp_all
    then show "p \<in> set (boxCoords w h)" by (simp add: boxCoords_def)
  qed
qed

lemma dense_default:
  assumes "0 < w" "0 < h" "agrees w h cm cs" "inBox w h a b" "(a, b) \<notin> coordOf ` set cs"
  shows "overlay cm cs (allTrees w h) ! nat (rowMajor w h a b) = Some (treeCell a b)"
proof -
  let ?k = "nat (rowMajor w h a b)"
  from rowMajor_bounds [OF assms(1,2,4)] have k: "?k < nat (w * h)" by (simp add: nat_less_iff)
  have c: "coordAt w h ?k = (a, b)" by (rule coordAt_rowMajor [OF assms(1,2,4)])
  have "lastAt cm ?k cs = None"
  proof (rule ccontr)
    assume "lastAt cm ?k cs \<noteq> None"
    then obtain d where d: "lastAt cm ?k cs = Some d" by auto
    from lastAt_coord [OF assms(1-3) d] c have "coordOf d = (a, b)" by simp
    moreover from lastAt_Some [OF d] have "d \<in> set cs" by simp
    ultimately show False using assms(5) by force
  qed
  then show ?thesis by (simp add: dense_nth [OF assms(1-3) k] c)
qed

section \<open>Claim C7: the reconstructed dense field\<close>

text \<open>
  Claim C7, as stated, asks for exactly \<open>width * height\<close> cells for every positive width
  and height. The position of a supplied cell comes from the client's \<open>coords\<close>, so it
  fails: in a box of one cell, with the key of \<open>(0, 0)\<close> sent to position 3, the field has
  four positions, two of them holes.
\<close>

theorem C7_counterexample:
  "reconstruct \<lparr>json_width = 1, json_height = 1,
      json_cells = [\<lparr>cell_x = 0, cell_y = 0, state = B, burnTime = 0\<rparr>]\<rparr> [''0,0'' \<mapsto> 3]
    = [Some (treeCell 0 0), None, None, Some \<lparr>cell_x = 0, cell_y = 0, state = B, burnTime = 0\<rparr>]
   \<and> length (reconstruct \<lparr>json_width = 1, json_height = 1,
      json_cells = [\<lparr>cell_x = 0, cell_y = 0, state = B, burnTime = 0\<rparr>]\<rparr> [''0,0'' \<mapsto> 3]) \<noteq> nat (1 * 1)"
  by code_simp

text \<open>
  Claim C7, amended: for every width and height above 0, and every \<open>coords\<close> that agrees
  with the row-major numbering on the supplied cells (the key of each is absent, or the
  cell lies in the box and its key is sent to its own row-major position), the
  reconstructed field has exactly \<open>width * height\<close> cells; the coordinates of its cells
  are, position by position, those of the bounding box
  \<open>[-\<lfloor>w/2\<rfloor>, w - \<lfloor>w/2\<rfloor>) \<times> [-\<lfloor>h/2\<rfloor>, h - \<lfloor>h/2\<rfloor>)\<close>, each exactly once; every
  coordinate of the box that no supplied cell has holds a tree with \<open>burnTime = 0\<close>; and
  for an odd size the upper bound of the loop is one more than half the size.
\<close>

theorem C7_dense_field:
  assumes "0 < json_width f" "0 < json_height f"
    and "agrees (json_width f) (json_height f) cm (json_cells f)"
  shows "length (reconstruct f cm) = nat (json_width f * json_height f)
     \<and> map (map_option coordOf) (reconstruct f cm) = map Some (boxCoords (json_width f) (json_height f))
     \<and> distinct (boxCoords (json_width f) (json_height f))
     \<and> set (boxCoords (json_width f) (json_height f)) = {(a, b). inBox (json_width f) (json_height f) a b}
     \<and> (\<forall>a b. inBox (json_width f) (json_height f) a b \<and> (a, b) \<notin> coordOf ` set (json_cells f) \<longrightarrow>
           reconstruct f cm ! nat (rowMajor (json_width f) (json_height f) a b) = Some (treeCell a b))
     \<and> (odd (json_width f) \<longrightarrow> endOf (json_width f) = json_width f div 2 + 1)
     \<and> (odd (json_height f) \<longrightarrow> endOf (json_height f) = json_height f div 2 + 1)"
  using assms
  by (simp add: reconstruct_def dense_length dense_coords boxCoords_distinct set_boxCoords
      dense_default endOf_odd)

text \<open>
  The amended claim C7 at a box of width 2 and height 1 with one burning cell at
  \<open>(-1, 0)\<close>, sent to position 0.
\<close>

theorem C7_dense_field_witness:
  "agrees 2 1 [''-1,0'' \<mapsto> 0] [\<lparr>cell_x = -1, cell_y = 0, state = B, burnTime = 0\<rparr>]
   \<and> length (reconstruct \<lparr>json_width = 2, json_height = 1,
        json_cells = [\<lparr>cell_x = -1, cell_y = 0, state = B, burnTime = 0\<rparr>]\<rparr> [''-1,0'' \<mapsto> 0]) = 2
   \<and> reconstruct \<lparr>json_width = 2, json_height = 1,
        json_cells = [\<lparr>cell_x = -1, cell_y = 0, state = B, burnTime = 0\<rparr>]\<rparr> [''-1,0'' \<mapsto> 0] ! 1
      = Some (treeCell 0 0)"
proof -
  let ?f = "\<lparr>json_width = 2, json_height = 1,
        json_cells = [\<lparr>cell_x = -1, cell_y = 0, state = B, burnTime = 0\<rparr>]\<rparr>"
  let ?cm = "[''-1,0'' \<mapsto> (0::int)]"
  have a: "agrees 2 1 ?cm [\<lparr>cell_x = -1, cell_y = 0, state = B, burnTime = 0\<rparr>]" by code_simp
  have b: "inBox 2 1 0 0" by (simp add: inBox_def)
  have c: "((0::int), (0::int)) \<notin> coordOf ` set [\<lparr>cell_x = -1, cell_y = 0, state = B, burnTime = 0\<rparr>]"
    by (simp add: coordOf_def)
  have r: "nat (rowMajor 2 1 0 0) = 1" by (simp add: rowMajor_def)
  have "0 < json_width ?f" "0 < json_height ?f"
    "agrees (json_width ?f) (json_height ?f) ?cm (json_cells ?f)"
    using a by simp_all
  note t = C7_dense_field [OF this]
  from t have len: "length (reconstruct ?f ?cm) = 2" by simp
  from t have "inBox (json_width ?f) (json_height ?f) 0 0 \<and> (0, 0) \<notin> coordOf ` set (json_cells ?f) \<longrightarrow>
      reconstruct ?f ?cm ! nat (rowMajor (json_width ?f) (json_height ?f) 0 0) = Some (treeCell 0 0)"
    by blast
  with b c r have "reconstruct ?f ?cm ! 1 = Some (treeCell 0 0)" by simp
  with len a show ?thesis by simp
qed

section \<open>Extraction of the cells that are not trees\<close>

lemma overrides_agrees: "overrides w h cm cs \<Longrightarrow> agrees w h cm cs"
  by (auto simp: overrides_def agrees_def list_all_iff)

lemma set_nonTreeCells: "set (nonTreeCells arr) = {c. Some c \<in> set arr \<and> state c \<noteq> T}"
  by (induction arr) (auto simp: nonTreeCells_def split: option.splits)

lemma nonTreeCells_Nil: "nonTreeCells [] = []"
  by (simp add: nonTreeCells_def)

lemma nonTreeCells_None: "nonTreeCells (None # arr) = nonTreeCells arr"
  by (simp add: nonTreeCells_def)

lemma nonTreeCells_Some:
  "nonTreeCells (Some c # arr) = (if state c \<noteq> T then c # nonTreeCells arr else nonTreeCells arr)"
  by (simp add: nonTreeCells_def)

lemma distinct_nonTreeCells:
  "distinct (map (map_option coordOf) arr) \<Longrightarrow> distinct (nonTreeCells arr)"
proof (induction arr)
  case Nil
  then show ?case by (simp add: nonTreeCells_Nil)
next
  case (Cons e arr)
  from Cons have d: "distinct (nonTreeCells arr)" by simp
  show ?case
  proof (cases e)
    case None
    with d show ?thesis by (simp add: nonTreeCells_None)
  next
    case (Some c)
    have "c \<notin> set (nonTreeCells arr)"
    proof
      assume "c \<in> set (nonTreeCells arr)"
      then have "Some c \<in> set arr" by (simp add: set_nonTreeCells)
      then have "map_option coordOf (Some c) \<in> map_option coordOf ` set arr" by (rule imageI)
      with Cons.prems Some show False by simp
    qed
    with d Some show ?thesis by (simp add: nonTreeCells_Some)
  qed
qed

lemma set_lastWins_subset: "set (lastWins cs) \<subseteq> set cs"
  by (induction cs) auto

lemma distinct_lastWins: "distinct (lastWins cs)"
proof (induction cs)
  case Nil
  then show ?case by simp
next
  case (Cons c cs)
  show ?case
  proof (cases "list_ex (\<lambda>d. coordOf d = coordOf c) cs")
    case True
    with Cons show ?thesis by simp
  next
    case False
    then have "c \<notin> set cs" by (auto simp: list_ex_iff)
    with set_lastWins_subset [of cs] have "c \<notin> set (lastWins cs)" by blast
    with False Cons show ?thesis by simp
  qed
qed

lemma lastWins_distinct_coords: "distinct (map coordOf cs) \<Longrightarrow> lastWins cs = cs"
proof (induction cs)
  case Nil
  then show ?case by simp
next
  case (Cons c cs)
  then have n: "coordOf c \<notin> coordOf ` set cs" by simp
  have "\<not> list_ex (\<lambda>d. coordOf d = coordOf c) cs"
  proof
    assume "list_ex (\<lambda>d. coordOf d = coordOf c) cs"
    then obtain d where "d \<in> set cs" and e: "coordOf d = coordOf c" by (auto simp: list_ex_iff)
    then have "coordOf d \<in> coordOf ` set cs" by (intro imageI)
    with e n show False by simp
  qed
  with Cons show ?case by simp
qed

lemma overrides_same_position:
  assumes "0 < w" "0 < h" "overrides w h cm cs" "c \<in> set cs" "d \<in> set cs"
  shows "cm (coordKey d) = cm (coordKey c) \<longleftrightarrow> coordOf d = coordOf c"
proof -
  from assms(3,4) have c: "inBox w h (cell_x c) (cell_y c)"
      "cm (coordKey c) = Some (rowMajor w h (cell_x c) (cell_y c))"
    by (auto simp: overrides_def list_all_iff)
  from assms(3,5) have d: "inBox w h (cell_x d) (cell_y d)"
      "cm (coordKey d) = Some (rowMajor w h (cell_x d) (cell_y d))"
    by (auto simp: overrides_def list_all_iff)
  show ?thesis
  proof
    assume "cm (coordKey d) = cm (coordKey c)"
    with c d have "rowMajor w h (cell_x d) (cell_y d) = rowMajor w h (cell_x c) (cell_y c)" by simp
    then have "coordAt w h (nat (rowMajor w h (cell_x d) (cell_y d)))
        = coordAt w h (nat (rowMajor w h (cell_x c) (cell_y c)))" by simp
    then show "coordOf d = coordOf c"
      by (simp add: coordAt_rowMajor [OF assms(1,2)] c d coordOf_def)
  next
    assume "coordOf d = coordOf c"
    then show "cm (coordKey d) = cm (coordKey c)" by (simp add: coordOf_def coordKey_def)
  qed
qed


lemma set_lastWins:
  assumes "0 < w" "0 < h" "overrides w h cm cs"
  shows "set (lastWins cs) = {d. \<exists>k. lastAt cm k cs = Some d}"
  using assms(3)
proof (induction cs)
  case Nil
  then show ?case by simp
next
  case (Cons c cs)
  from Cons.prems have tl: "overrides w h cm cs" by (simp add: overrides_def)
  note ih = Cons.IH [OF tl]
  from Cons.prems have c: "inBox w h (cell_x c) (cell_y c)"
      "cm (coordKey c) = Some (rowMajor w h (cell_x c) (cell_y c))"
    by (simp_all add: overrides_def)
  define k0 where "k0 = nat (rowMajor w h (cell_x c) (cell_y c))"
  have k0: "cm (coordKey c) = Some (int k0)"
    using rowMajor_bounds(1) [OF assms(1,2) c(1)] by (simp add: c k0_def)
  have same: "cm (coordKey d) = Some (int k0) \<longleftrightarrow> coordOf d = coordOf c" if "d \<in> set cs" for d
  proof -
    have cc: "c \<in> set (c # cs)" by simp
    from that have dd: "d \<in> set (c # cs)" by simp
    from overrides_same_position [OF assms(1,2) Cons.prems cc dd]
    have "cm (coordKey d) = cm (coordKey c) \<longleftrightarrow> coordOf d = coordOf c" .
    then show ?thesis by (simp only: k0)
  qed
  have sp: "{d. \<exists>k. lastAt cm k (c # cs) = Some d}
      = {d. \<exists>k. lastAt cm k cs = Some d} \<union> {d. d = c \<and> lastAt cm k0 cs = None}"
  proof (rule set_eqI)
    fix d
    show "d \<in> {d. \<exists>k. lastAt cm k (c # cs) = Some d}
      \<longleftrightarrow> d \<in> {d. \<exists>k. lastAt cm k cs = Some d} \<union> {d. d = c \<and> lastAt cm k0 cs = None}"
    proof
      assume "d \<in> {d. \<exists>k. lastAt cm k (c # cs) = Some d}"
      then obtain k where k: "lastAt cm k (c # cs) = Some d" by blast
      show "d \<in> {d. \<exists>k. lastAt cm k cs = Some d} \<union> {d. d = c \<and> lastAt cm k0 cs = None}"
      proof (cases "lastAt cm k cs")
        case None
        with k have "(if cm (coordKey c) = Some (int k) then Some c else None) = Some d" by simp
        then have "cm (coordKey c) = Some (int k)" and "d = c"
          by (simp_all split: if_splits)
        with k0 have "k = k0" by simp
        with None \<open>d = c\<close> show ?thesis by simp
      next
        case (Some e)
        with k have "lastAt cm k cs = Some d" by simp
        then show ?thesis by blast
      qed
    next
      assume "d \<in> {d. \<exists>k. lastAt cm k cs = Some d} \<union> {d. d = c \<and> lastAt cm k0 cs = None}"
      then have "(\<exists>k. lastAt cm k cs = Some d) \<or> (d = c \<and> lastAt cm k0 cs = None)" by simp
      then consider (old) k where "lastAt cm k cs = Some d" | (new) "d = c" "lastAt cm k0 cs = None"
        by (elim disjE exE conjE)
      then show "d \<in> {d. \<exists>k. lastAt cm k (c # cs) = Some d}"
      proof cases
        case old
        then have "lastAt cm k (c # cs) = Some d" by simp
        then show ?thesis by blast
      next
        case new
        with k0 have "lastAt cm k0 (c # cs) = Some d" by simp
        then show ?thesis by blast
      qed
    qed
  qed
  have "lastAt cm k0 cs = None \<longleftrightarrow> (\<forall>d\<in>set cs. cm (coordKey d) \<noteq> Some (int k0))"
    by (rule lastAt_None)
  also have "\<dots> \<longleftrightarrow> (\<forall>d\<in>set cs. coordOf d \<noteq> coordOf c)"
    using same by blast
  also have "\<dots> \<longleftrightarrow> \<not> list_ex (\<lambda>d. coordOf d = coordOf c) cs"
    by (simp add: list_ex_iff)
  finally have none: "lastAt cm k0 cs = None \<longleftrightarrow> \<not> list_ex (\<lambda>d. coordOf d = coordOf c) cs" .
  show ?case
  proof (cases "list_ex (\<lambda>d. coordOf d = coordOf c) cs")
    case True
    with none have "{d. d = c \<and> lastAt cm k0 cs = None} = {}" by simp
    then have "{d. \<exists>k. lastAt cm k (c # cs) = Some d} = set (lastWins cs)"
      by (simp only: sp ih Un_empty_right)
    moreover from True have "lastWins (c # cs) = lastWins cs" by simp
    ultimately show ?thesis by simp
  next
    case False
    with none have "{d. d = c \<and> lastAt cm k0 cs = None} = {c}" by simp
    then have "{d. \<exists>k. lastAt cm k (c # cs) = Some d} = set (lastWins cs) \<union> {c}"
      by (simp only: sp ih)
    moreover from False have "lastWins (c # cs) = c # lastWins cs" by simp
    ultimately show ?thesis by simp
  qed
qed

lemma lastAt_position:
  assumes "0 < w" "0 < h" "overrides w h cm cs" "lastAt cm k cs = Some d"
  shows "k < nat (w * h)" and "state d \<noteq> T"
proof -
  from lastAt_Some [OF assms(4)] have d: "d \<in> set cs" and i: "cm (coordKey d) = Some (int k)"
    by simp_all
  from assms(3) d have b: "inBox w h (cell_x d) (cell_y d)"
      and e: "cm (coordKey d) = Some (rowMajor w h (cell_x d) (cell_y d))"
      and s: "state d \<noteq> T"
    by (auto simp: overrides_def list_all_iff)
  from i e have "int k = rowMajor w h (cell_x d) (cell_y d)" by simp
  with rowMajor_bounds(2) [OF assms(1,2) b] show "k < nat (w * h)" by simp
  from s show "state d \<noteq> T" .
qed

lemma set_nonTree_dense:
  assumes "0 < w" "0 < h" "overrides w h cm cs"
  shows "set (nonTreeCells (overlay cm cs (allTrees w h))) = {d. \<exists>k. lastAt cm k cs = Some d}"
proof (rule set_eqI)
  fix d
  note ag = overrides_agrees [OF assms(3)]
  let ?dense = "overlay cm cs (allTrees w h)"
  show "d \<in> set (nonTreeCells ?dense) \<longleftrightarrow> d \<in> {d. \<exists>k. lastAt cm k cs = Some d}"
  proof
    assume "d \<in> set (nonTreeCells ?dense)"
    then have m: "Some d \<in> set ?dense" and s: "state d \<noteq> T" by (simp_all add: set_nonTreeCells)
    from m obtain k where k: "k < length ?dense" and e: "?dense ! k = Some d"
      by (auto simp: in_set_conv_nth)
    from k have k': "k < nat (w * h)" by (simp add: dense_length [OF assms(1,2) ag])
    have "lastAt cm k cs = Some d"
    proof (cases "lastAt cm k cs")
      case None
      with e have "d = treeCell (fst (coordAt w h k)) (snd (coordAt w h k))"
        by (simp add: dense_nth [OF assms(1,2) ag k'])
      then have "state d = T" by (simp add: treeCell_def)
      with s show ?thesis by simp
    next
      case (Some c)
      with e show ?thesis by (simp add: dense_nth [OF assms(1,2) ag k'])
    qed
    then show "d \<in> {d. \<exists>k. lastAt cm k cs = Some d}" by blast
  next
    assume "d \<in> {d. \<exists>k. lastAt cm k cs = Some d}"
    then obtain k where l: "lastAt cm k cs = Some d" by blast
    note k = lastAt_position [OF assms l]
    have "?dense ! k = Some d" by (simp add: dense_nth [OF assms(1,2) ag k(1)] l)
    moreover have "k < length ?dense" using k(1) by (simp add: dense_length [OF assms(1,2) ag])
    ultimately have "Some d \<in> set ?dense" by (metis nth_mem)
    with k(2) show "d \<in> set (nonTreeCells ?dense)" by (simp add: set_nonTreeCells)
  qed
qed

lemma lastAt_unique:
  assumes "0 < w" "0 < h" "overrides w h cm cs" "distinct (map coordOf cs)"
  shows "lastAt cm k cs = Some d \<longleftrightarrow> d \<in> set cs \<and> cm (coordKey d) = Some (int k)"
proof
  assume "lastAt cm k cs = Some d"
  then show "d \<in> set cs \<and> cm (coordKey d) = Some (int k)" by (rule lastAt_Some)
next
  assume a: "d \<in> set cs \<and> cm (coordKey d) = Some (int k)"
  then have "lastAt cm k cs \<noteq> None" by (auto simp: lastAt_None)
  then obtain e where e: "lastAt cm k cs = Some e" by auto
  from lastAt_Some [OF e] have es: "e \<in> set cs" and ek: "cm (coordKey e) = Some (int k)" by simp_all
  from a ek have "cm (coordKey e) = cm (coordKey d)" by simp
  with overrides_same_position [OF assms(1-3), of d e] a es have "coordOf e = coordOf d" by simp
  moreover from assms(4) have "inj_on coordOf (set cs)" by (simp add: distinct_map)
  ultimately have "e = d" using a es by (auto dest: inj_onD)
  with e show "lastAt cm k cs = Some d" by simp
qed

lemma lastAt_same_set:
  assumes "0 < w" "0 < h" "overrides w h cm cs" "distinct (map coordOf cs)"
    and "set cs' = set cs" "distinct (map coordOf cs')"
  shows "lastAt cm k cs' = lastAt cm k cs"
proof -
  from assms(3,5) have o: "overrides w h cm cs'" by (simp add: overrides_def list_all_iff)
  show ?thesis
  proof (cases "lastAt cm k cs")
    case None
    then have "lastAt cm k cs' = None" using assms(5) by (simp add: lastAt_None)
    with None show ?thesis by simp
  next
    case (Some d)
    then have "d \<in> set cs \<and> cm (coordKey d) = Some (int k)"
      by (simp add: lastAt_unique [OF assms(1-4)])
    then have "lastAt cm k cs' = Some d"
      by (simp add: lastAt_unique [OF assms(1,2) o assms(6)] assms(5))
    with Some show ?thesis by simp
  qed
qed

lemma dense_same_set:
  assumes "0 < w" "0 < h" "overrides w h cm cs" "distinct (map coordOf cs)"
    and "set cs' = set cs" "distinct (map coordOf cs')"
  shows "overlay cm cs' (allTrees w h) = overlay cm cs (allTrees w h)"
proof (rule nth_equalityI)
  from assms(3,5) have o: "overrides w h cm cs'" by (simp add: overrides_def list_all_iff)
  note ag = overrides_agrees [OF assms(3)] and ag' = overrides_agrees [OF o]
  show "length (overlay cm cs' (allTrees w h)) = length (overlay cm cs (allTrees w h))"
    by (simp add: dense_length [OF assms(1,2) ag] dense_length [OF assms(1,2) ag'])
  fix k
  assume "k < length (overlay cm cs' (allTrees w h))"
  then have k: "k < nat (w * h)" by (simp add: dense_length [OF assms(1,2) ag'])
  show "overlay cm cs' (allTrees w h) ! k = overlay cm cs (allTrees w h) ! k"
    by (simp add: dense_nth [OF assms(1,2) ag k] dense_nth [OF assms(1,2) ag' k]
        lastAt_same_set [OF assms])
qed

section \<open>Claim C8: the round trip of the overrides\<close>

text \<open>
  Claim C8, as stated, holds for every sparse description of overrides inside the box.
  Whether an override is placed at all depends on the client's \<open>coords\<close>: with an empty
  \<open>coords\<close> the burning cell at \<open>(0, 0)\<close> is dropped and nothing comes back.
\<close>

theorem C8_counterexample:
  "nonTreeCells (reconstruct \<lparr>json_width = 1, json_height = 1,
      json_cells = [\<lparr>cell_x = 0, cell_y = 0, state = B, burnTime = 0\<rparr>]\<rparr> Map.empty) = []
   \<and> lastWins [\<lparr>cell_x = 0, cell_y = 0, state = B, burnTime = 0\<rparr>]
       = [\<lparr>cell_x = 0, cell_y = 0, state = B, burnTime = 0\<rparr>]"
  by code_simp

text \<open>
  Claim C8, amended: for every width and height above 0 and every sparse description
  whose supplied cells are burning or empty, lie in the box and have their key sent by
  \<open>coords\<close> to their own row-major position, the cells of the reconstructed field that
  are not trees are exactly the supplied cells, the last one winning among those that
  share a coordinate, each once; when no two supplied cells share a coordinate they are
  exactly the supplied cells, and supplying the same cells in another order gives the
  same field; and the field has \<open>width * height\<close> cells.
\<close>

theorem C8_round_trip:
  assumes "0 < json_width f" "0 < json_height f"
    and "overrides (json_width f) (json_height f) cm (json_cells f)"
  shows "set (nonTreeCells (reconstruct f cm)) = set (lastWins (json_cells f))
     \<and> distinct (nonTreeCells (reconstruct f cm))
     \<and> distinct (lastWins (json_cells f))
     \<and> (distinct (map coordOf (json_cells f)) \<longrightarrow>
           set (nonTreeCells (reconstruct f cm)) = set (json_cells f)
         \<and> (\<forall>cs'. set cs' = set (json_cells f) \<and> distinct (map coordOf cs') \<longrightarrow>
                reconstruct (f\<lparr>json_cells := cs'\<rparr>) cm = reconstruct f cm))
     \<and> length (reconstruct f cm) = nat (json_width f * json_height f)"
proof -
  let ?w = "json_width f" and ?h = "json_height f" and ?cs = "json_cells f"
  note ag = overrides_agrees [OF assms(3)]
  have s: "set (nonTreeCells (reconstruct f cm)) = set (lastWins ?cs)"
    by (simp add: reconstruct_def set_nonTree_dense [OF assms] set_lastWins [OF assms])
  have "distinct (map (map_option coordOf) (reconstruct f cm))"
    by (simp add: reconstruct_def dense_coords [OF assms(1,2) ag] distinct_map boxCoords_distinct)
  then have d: "distinct (nonTreeCells (reconstruct f cm))" by (rule distinct_nonTreeCells)
  have l: "length (reconstruct f cm) = nat (?w * ?h)"
    by (simp add: reconstruct_def dense_length [OF assms(1,2) ag])
  have o: "set (nonTreeCells (reconstruct f cm)) = set ?cs
      \<and> (\<forall>cs'. set cs' = set ?cs \<and> distinct (map coordOf cs') \<longrightarrow>
             reconstruct (f\<lparr>json_cells := cs'\<rparr>) cm = reconstruct f cm)"
    if dc: "distinct (map coordOf ?cs)"
  proof
    from s dc show "set (nonTreeCells (reconstruct f cm)) = set ?cs"
      by (simp add: lastWins_distinct_coords)
    show "\<forall>cs'. set cs' = set ?cs \<and> distinct (map coordOf cs') \<longrightarrow>
        reconstruct (f\<lparr>json_cells := cs'\<rparr>) cm = reconstruct f cm"
    proof (intro allI impI)
      fix cs'
      assume "set cs' = set ?cs \<and> distinct (map coordOf cs')"
      then have "overlay cm cs' (allTrees ?w ?h) = overlay cm ?cs (allTrees ?w ?h)"
        using dense_same_set [OF assms dc] by blast
      then show "reconstruct (f\<lparr>json_cells := cs'\<rparr>) cm = reconstruct f cm"
        by (simp add: reconstruct_def)
    qed
  qed
  from s d l o show ?thesis by (simp add: distinct_lastWins)
qed

text \<open>
  The amended claim C8 at a box of width 2 and height 1 with a burning cell at
  \<open>(-1, 0)\<close> and an empty one at \<open>(0, 0)\<close>, supplied in either order.
\<close>

theorem C8_round_trip_witness:
  "overrides 2 1 [''-1,0'' \<mapsto> 0, ''0,0'' \<mapsto> 1]
      [\<lparr>cell_x = -1, cell_y = 0, state = B, burnTime = 0\<rparr>,
       \<lparr>cell_x = 0, cell_y = 0, state = E, burnTime = 0\<rparr>]
   \<and> set (nonTreeCells (reconstruct \<lparr>json_width = 2, json_height = 1,
        json_cells = [\<lparr>cell_x = -1, cell_y = 0, state = B, burnTime = 0\<rparr>,
                      \<lparr>cell_x = 0, cell_y = 0, state = E, burnTime = 0\<rparr>]\<rparr>
        [''-1,0'' \<mapsto> 0, ''0,0'' \<mapsto> 1]))
      = {\<lparr>cell_x = -1, cell_y = 0, state = B, burnTime = 0\<rparr>,
         \<lparr>cell_x = 0, cell_y = 0, state = E, burnTime = 0\<rparr>}
   \<and> reconstruct \<lparr>json_width = 2, json_height = 1,
        json_cells = [\<lparr>cell_x = 0, cell_y = 0, state = E, burnTime = 0\<rparr>,
                      \<lparr>cell_x = -1, cell_y = 0, state = B, burnTime = 0\<rparr>]\<rparr>
        [''-1,0'' \<mapsto> 0, ''0,0'' \<mapsto> 1]
      = reconstruct \<lparr>json_width = 2, json_height = 1,
        json_cells = [\<lparr>cell_x = -1, cell_y = 0, state = B, burnTime = 0\<rparr>,
                      \<lparr>cell_x = 0, cell_y = 0, state = E, burnTime = 0\<rparr>]\<rparr>
        [''-1,0'' \<mapsto> 0, ''0,0'' \<mapsto> 1]
   \<and> length (reconstruct \<lparr>json_width = 2, json_height = 1,
        json_cells = [\<lparr>cell_x = -1, cell_y = 0, state = B, burnTime = 0\<rparr>,
                      \<lparr>cell_x = 0, cell_y = 0, state = E, burnTime = 0\<rparr>]\<rparr>
        [''-1,0'' \<mapsto> 0, ''0,0'' \<mapsto> 1]) = 2"
proof -
  let ?b = "\<lparr>cell_x = -1, cell_y = 0, state = B, burnTime = 0\<rparr>"
  let ?e = "\<lparr>cell_x = 0, cell_y = 0, state = E, burnTime = 0\<rparr>"
  let ?f = "\<lparr>json_width = 2, json_height = 1, json_cells = [?b, ?e]\<rparr>"
  let ?cm = "[''-1,0'' \<mapsto> (0::int), ''0,0'' \<mapsto> 1]"
  have a: "overrides 2 1 ?cm [?b, ?e]" by code_simp
  have dc: "distinct (map coordOf [?b, ?e])" by (simp add: coordOf_def)
  have dc': "distinct (map coordOf [?e, ?b])" by (simp add: coordOf_def)
  have "0 < json_width ?f" "0 < json_height ?f"
    "overrides (json_width ?f) (json_height ?f) ?cm (json_cells ?f)"
    using a by simp_all
  note t = C8_round_trip [OF this]
  note t4 = t [THEN conjunct2, THEN conjunct2, THEN conjunct2, THEN conjunct1, THEN mp]
  have dcf: "distinct (map coordOf (json_cells ?f))" using dc by simp
  from t4 [OF dcf, THEN conjunct1]
  have s: "set (nonTreeCells (reconstruct ?f ?cm)) = {?b, ?e}" by simp
  have "set [?e, ?b] = set (json_cells ?f) \<and> distinct (map coordOf [?e, ?b])"
    using dc' by (simp add: insert_commute)
  from t4 [OF dcf, THEN conjunct2, THEN spec, of "[?e, ?b]", THEN mp, OF this]
  have r: "reconstruct \<lparr>json_width = 2, json_height = 1, json_cells = [?e, ?b]\<rparr> ?cm
      = reconstruct ?f ?cm" by simp
  from t [THEN conjunct2, THEN conjunct2, THEN conjunct2, THEN conjunct2]
  have l: "length (reconstruct ?f ?cm) = 2" by simp
  from a s r l show ?thesis by (intro conjI)
qed

section \<open>Row-major coords\<close>

lemma rowMajorCoords_lookup:
  assumes "0 < w" "0 < h"
  shows "rowMajorCoords w h (coordString a b) = (if inBox w h a b then Some (rowMajor w h a b) else None)"
proof (cases "inBox w h a b")
  case True
  let ?g = "\<lambda>(a, b). (coordString a b, rowMajor w h a b)"
  have "inj_on (\<lambda>p. fst (?g p)) (set (boxCoords w h))"
    by (rule inj_onI) (auto dest: coordString_inj)
  then have "distinct (map fst (map ?g (boxCoords w h)))"
    by (simp add: distinct_map boxCoords_distinct comp_def)
  moreover from True have "(a, b) \<in> set (boxCoords w h)" by (simp add: set_boxCoords [OF assms])
  then have "?g (a, b) \<in> ?g ` set (boxCoords w h)" by (rule imageI)
  then have "(coordString a b, rowMajor w h a b) \<in> set (map ?g (boxCoords w h))" by simp
  ultimately have "map_of (map ?g (boxCoords w h)) (coordString a b) = Some (rowMajor w h a b)"
    by (rule map_of_is_SomeI)
  with True show ?thesis by (simp add: rowMajorCoords_def)
next
  case False
  let ?g = "\<lambda>(a, b). (coordString a b, rowMajor w h a b)"
  have "coordString a b \<notin> fst ` set (map ?g (boxCoords w h))"
  proof
    assume "coordString a b \<in> fst ` set (map ?g (boxCoords w h))"
    then obtain a' b' where m: "(a', b') \<in> set (boxCoords w h)" and e: "coordString a b = coordString a' b'"
      by auto
    from coordString_inj [OF e] m have "(a, b) \<in> set (boxCoords w h)" by simp
    with False show False by (simp add: set_boxCoords [OF assms])
  qed
  then have "map_of (map ?g (boxCoords w h)) (coordString a b) = None"
    by (simp add: map_of_eq_None_iff)
  with False show ?thesis by (simp add: rowMajorCoords_def)
qed

lemma agrees_rowMajorCoords: "0 < w \<Longrightarrow> 0 < h \<Longrightarrow> agrees w h (rowMajorCoords w h) cs"
  by (simp add: agrees_def list_all_iff coordKey_def rowMajorCoords_lookup)

lemma dense_absent_key:
  assumes "0 < w" "0 < h" "agrees w h cm cs" "inBox w h a b" "cm (coordString a b) = None"
  shows "overlay cm cs (allTrees w h) ! nat (rowMajor w h a b) = Some (treeCell a b)"
proof -
  let ?k = "nat (rowMajor w h a b)"
  from rowMajor_bounds [OF assms(1,2,4)] have k: "?k < nat (w * h)" by (simp add: nat_less_iff)
  have c: "coordAt w h ?k = (a, b)" by (rule coordAt_rowMajor [OF assms(1,2,4)])
  have "lastAt cm ?k cs = None"
  proof (rule ccontr)
    assume "lastAt cm ?k cs \<noteq> None"
    then obtain d where d: "lastAt cm ?k cs = Some d" by auto
    from lastAt_coord [OF assms(1-3) d] c have "coordOf d = (a, b)" by simp
    then have "coordKey d = coordString a b" by (simp add: coordOf_def coordKey_def)
    moreover from lastAt_Some [OF d] have "cm (coordKey d) = Some (int ?k)" by simp
    ultimately show False using assms(5) by simp
  qed
  then show ?thesis by (simp add: dense_nth [OF assms(1-3) k] c)
qed

lemma coordAt_bij:
  assumes "0 < w" "0 < h"
  shows "bij_betw (coordAt w h) {0..<nat (w * h)} {(a, b). inBox w h a b}"
proof -
  have "inj_on (coordAt w h) {0..<nat (w * h)}" by (rule inj_onI) (rule coordAt_inj)
  moreover have "coordAt w h ` {0..<nat (w * h)} = {(a, b). inBox w h a b}"
    using set_boxCoords [OF assms] by (simp add: boxCoords_def)
  ultimately show ?thesis by (simp add: bij_betw_def)
qed

lemma agrees_empty: "agrees w h Map.empty cs"
  by (simp add: agrees_def list_all_iff)

section \<open>Claim C9: coords is not checked\<close>

text \<open>
  Claim C9, as stated, has the coordinate of a supplied cell whose key is absent from
  \<open>coords\<close> stay a default tree, and has the invariant of the field hold only when
  \<open>coords\<close> is exactly the row-major mapping. Both fail in a box of width 2 and height
  1. With the cells \<open>(-1, 0)\<close> burning and \<open>(0, 0)\<close> empty and the key of \<open>(0, 0)\<close> sent to
  position 0, the key of \<open>(-1, 0)\<close> is absent, and position 0, the place of \<open>(-1, 0)\<close>,
  holds the empty cell of \<open>(0, 0)\<close> and no tree. With the cell \<open>(-1, 0)\<close> burning and
  \<open>coords\<close> empty, or holding only the key of \<open>(-1, 0)\<close>, \<open>coords\<close> is not the row-major
  mapping, which knows the key of \<open>(0, 0)\<close>, and yet the field has two cells whose
  coordinates are those of the box, position by position.
\<close>

theorem C9_counterexample:
  "[''0,0'' \<mapsto> (0::int)] (coordKey \<lparr>cell_x = -1, cell_y = 0, state = B, burnTime = 0\<rparr>) = None
   \<and> inBox 2 1 (-1) 0
   \<and> nat (rowMajor 2 1 (-1) 0) = 0
   \<and> reconstruct \<lparr>json_width = 2, json_height = 1,
        json_cells = [\<lparr>cell_x = -1, cell_y = 0, state = B, burnTime = 0\<rparr>,
                      \<lparr>cell_x = 0, cell_y = 0, state = E, burnTime = 0\<rparr>]\<rparr> [''0,0'' \<mapsto> 0] ! 0
      = Some \<lparr>cell_x = 0, cell_y = 0, state = E, burnTime = 0\<rparr>
   \<and> reconstruct \<lparr>json_width = 2, json_height = 1,
        json_cells = [\<lparr>cell_x = -1, cell_y = 0, state = B, burnTime = 0\<rparr>,
                      \<lparr>cell_x = 0, cell_y = 0, state = E, burnTime = 0\<rparr>]\<rparr> [''0,0'' \<mapsto> 0] ! 0
      \<noteq> Some (treeCell (-1) 0)
   \<and> rowMajorCoords 2 1 ''0,0'' = Some 1
   \<and> (Map.empty :: string \<rightharpoonup> int) ''0,0'' \<noteq> rowMajorCoords 2 1 ''0,0''
   \<and> reconstruct \<lparr>json_width = 2, json_height = 1,
        json_cells = [\<lparr>cell_x = -1, cell_y = 0, state = B, burnTime = 0\<rparr>]\<rparr> Map.empty
      = [Some (treeCell (-1) 0), Some (treeCell 0 0)]
   \<and> map (map_option coordOf) (reconstruct \<lparr>json_width = 2, json_height = 1,
        json_cells = [\<lparr>cell_x = -1, cell_y = 0, state = B, burnTime = 0\<rparr>]\<rparr> Map.empty)
      = map Some (boxCoords 2 1)
   \<and> [''-1,0'' \<mapsto> (0::int)] ''0,0'' \<noteq> rowMajorCoords 2 1 ''0,0''
   \<and> reconstruct \<lparr>json_width = 2, json_height = 1,
        json_cells = [\<lparr>cell_x = -1, cell_y = 0, state = B, burnTime = 0\<rparr>]\<rparr> [''-1,0'' \<mapsto> 0]
      = [Some \<lparr>cell_x = -1, cell_y = 0, state = B, burnTime = 0\<rparr>, Some (treeCell 0 0)]
   \<and> map (map_option coordOf) (reconstruct \<lparr>json_width = 2, json_height = 1,
        json_cells = [\<lparr>cell_x = -1, cell_y = 0, state = B, burnTime = 0\<rparr>]\<rparr> [''-1,0'' \<mapsto> 0])
      = map Some (boxCoords 2 1)"
  by code_simp

text \<open>
  Claim C9, amended: the overlay loop of POST places a supplied cell at the position the
  client's \<open>coords\<close> gives for its key and checks nothing. A supplied cell whose key
  \<open>coords\<close> sends to an array index holds that position, whatever its own coordinate,
  unless a later supplied cell is sent there too. A supplied cell whose key is absent
  from \<open>coords\<close> is dropped: the field is the one built from the other supplied cells. A
  coordinate of the box keeps its default tree whenever \<open>coords\<close> sends no supplied
  cell to its position, as is the case for a coordinate whose key is absent when
  \<open>coords\<close> agrees with the row-major numbering on the supplied cells. For some
  \<open>coords\<close> that disagrees with the row-major numbering the field holds a cell at a
  position whose enumerated coordinate is not the cell's own: in a box of width 2 and
  height 1, with the key of \<open>(-1, 0)\<close> sent to position 1, position 1 (the place of
  \<open>(0, 0)\<close>) holds the cell of \<open>(-1, 0)\<close>. The invariant of the field (\<open>w * h\<close> cells whose
  coordinates are, position by position, those of the box, position and coordinate
  being in bijection) holds whenever \<open>coords\<close> agrees with the row-major numbering
  \<open>(y + \<lfloor>h/2\<rfloor>) * w + (x + \<lfloor>w/2\<rfloor>)\<close> on the supplied cells; the row-major mapping of the
  box does so, and so does the empty mapping.
\<close>

theorem C9_coords_unchecked:
  "(\<forall>w h cm cs c rest i.
       cm (coordKey c) = Some i \<and> 0 \<le> i \<and> i < 4294967295
       \<and> (\<forall>d\<in>set rest. cm (coordKey d) \<noteq> Some i) \<longrightarrow>
       nat i < length (reconstruct \<lparr>json_width = w, json_height = h, json_cells = cs @ c # rest\<rparr> cm)
       \<and> reconstruct \<lparr>json_width = w, json_height = h, json_cells = cs @ c # rest\<rparr> cm ! nat i = Some c)
   \<and> (\<forall>w h cm cs.
         reconstruct \<lparr>json_width = w, json_height = h, json_cells = cs\<rparr> cm
           = reconstruct \<lparr>json_width = w, json_height = h,
               json_cells = filter (\<lambda>c. cm (coordKey c) \<noteq> None) cs\<rparr> cm)
   \<and> (\<forall>w h cm cs a b.
         0 < w \<and> 0 < h \<and> inBox w h a b \<longrightarrow>
         (reconstruct \<lparr>json_width = w, json_height = h, json_cells = cs\<rparr> cm ! nat (rowMajor w h a b)
            = Some (treeCell a b)
          \<or> (\<exists>d\<in>set cs. cm (coordKey d) = Some (rowMajor w h a b))))
   \<and> (\<forall>w h cm cs a b.
         0 < w \<and> 0 < h \<and> agrees w h cm cs \<and> inBox w h a b \<and> cm (coordString a b) = None \<longrightarrow>
         reconstruct \<lparr>json_width = w, json_height = h, json_cells = cs\<rparr> cm ! nat (rowMajor w h a b)
           = Some (treeCell a b))
   \<and> (reconstruct \<lparr>json_width = 2, json_height = 1,
          json_cells = [\<lparr>cell_x = -1, cell_y = 0, state = B, burnTime = 0\<rparr>]\<rparr> [''-1,0'' \<mapsto> 1] ! 1
        = Some \<lparr>cell_x = -1, cell_y = 0, state = B, burnTime = 0\<rparr>
      \<and> coordAt 2 1 1 = (0, 0)
      \<and> coordOf \<lparr>cell_x = -1, cell_y = 0, state = B, burnTime = 0\<rparr> \<noteq> coordAt 2 1 1)
   \<and> (\<forall>w h cm cs.
         0 < w \<and> 0 < h \<and> agrees w h cm cs \<longrightarrow>
         length (reconstruct \<lparr>json_width = w, json_height = h, json_cells = cs\<rparr> cm) = nat (w * h)
       \<and> map (map_option coordOf) (reconstruct \<lparr>json_width = w, json_height = h, json_cells = cs\<rparr> cm)
           = map Some (boxCoords w h)
       \<and> bij_betw (coordAt w h) {0..<nat (w * h)} {(a, b). inBox w h a b})
   \<and> (\<forall>w h cs. 0 < w \<and> 0 < h \<longrightarrow>
         agrees w h (rowMajorCoords w h) cs \<and> agrees w h Map.empty cs)"
proof (intro conjI allI impI)
  fix w h :: int and cm :: "string \<rightharpoonup> int" and cs c rest i
  assume a: "cm (coordKey c) = Some i \<and> 0 \<le> i \<and> i < 4294967295
       \<and> (\<forall>d\<in>set rest. cm (coordKey d) \<noteq> Some i)"
  then have p: "cm (coordKey c) = Some i" "0 \<le> i" "i < 4294967295"
    "\<forall>d\<in>set rest. cm (coordKey d) \<noteq> Some i" by blast+
  from reconstruct_placed [OF p]
  show "nat i < length (reconstruct \<lparr>json_width = w, json_height = h, json_cells = cs @ c # rest\<rparr> cm)"
    and "reconstruct \<lparr>json_width = w, json_height = h, json_cells = cs @ c # rest\<rparr> cm ! nat i = Some c"
    by blast+
next
  fix w h :: int and cm cs
  show "reconstruct \<lparr>json_width = w, json_height = h, json_cells = cs\<rparr> cm
      = reconstruct \<lparr>json_width = w, json_height = h,
          json_cells = filter (\<lambda>c. cm (coordKey c) \<noteq> None) cs\<rparr> cm"
    unfolding reconstruct_def by (simp only: FieldJson.simps overlay_filter)
next
  fix w h :: int and cm cs a b
  assume a: "0 < w \<and> 0 < h \<and> inBox w h a b"
  show "reconstruct \<lparr>json_width = w, json_height = h, json_cells = cs\<rparr> cm ! nat (rowMajor w h a b)
            = Some (treeCell a b)
          \<or> (\<exists>d\<in>set cs. cm (coordKey d) = Some (rowMajor w h a b))"
  proof (cases "\<exists>d\<in>set cs. cm (coordKey d) = Some (rowMajor w h a b)")
    case True
    then show ?thesis by (rule disjI2)
  next
    case False
    then have "\<forall>d\<in>set cs. cm (coordKey d) \<noteq> Some (rowMajor w h a b)" by blast
    with a have "reconstruct \<lparr>json_width = w, json_height = h, json_cells = cs\<rparr> cm ! nat (rowMajor w h a b)
        = Some (treeCell a b)"
      by (intro reconstruct_untouched) simp_all
    then show ?thesis by (rule disjI1)
  qed
next
  fix w h :: int and cm cs a b
  assume "0 < w \<and> 0 < h \<and> agrees w h cm cs \<and> inBox w h a b \<and> cm (coordString a b) = None"
  then show "reconstruct \<lparr>json_width = w, json_height = h, json_cells = cs\<rparr> cm ! nat (rowMajor w h a b)
      = Some (treeCell a b)"
    by (simp add: reconstruct_def dense_absent_key)
next
  show "reconstruct \<lparr>json_width = 2, json_height = 1,
          json_cells = [\<lparr>cell_x = -1, cell_y = 0, state = B, burnTime = 0\<rparr>]\<rparr> [''-1,0'' \<mapsto> 1] ! 1
        = Some \<lparr>cell_x = -1, cell_y = 0, state = B, burnTime = 0\<rparr>"
    by code_simp
next
  show "coordAt 2 1 1 = (0, 0)" by (simp add: coordAt_def)
next
  show "coordOf \<lparr>cell_x = -1, cell_y = 0, state = B, burnTime = 0\<rparr> \<noteq> coordAt 2 1 1"
    by (simp add: coordAt_def coordOf_def)
next
  fix w h :: int and cm cs
  assume p: "0 < w \<and> 0 < h \<and> agrees w h cm cs"
  from p show "length (reconstruct \<lparr>json_width = w, json_height = h, json_cells = cs\<rparr> cm) = nat (w * h)"
    by (simp add: reconstruct_def dense_length)
  from p show "map (map_option coordOf) (reconstruct \<lparr>json_width = w, json_height = h, json_cells = cs\<rparr> cm)
      = map Some (boxCoords w h)"
    by (simp add: reconstruct_def dense_coords)
  from p show "bij_betw (coordAt w h) {0..<nat (w * h)} {(a, b). inBox w h a b}"
    by (simp add: coordAt_bij)
next
  fix w h :: int and cs
  assume p: "0 < w \<and> 0 < h"
  then show "agrees w h (rowMajorCoords w h) cs" by (simp add: agrees_rowMajorCoords)
  show "agrees w h Map.empty cs" by (rule agrees_empty)
qed

text \<open>
  The amended claim C9 in the box of width 2 and height 1 with the burning cell
  \<open>(-1, 0)\<close>: sent to position 1 it holds the place of \<open>(0, 0)\<close>; with no \<open>coords\<close> at all
  it is dropped and position 0 keeps its tree; sent to position 0 it leaves the tree of
  \<open>(0, 0)\<close>, and the field has two cells; the row-major mapping and the empty mapping
  agree with the row-major numbering.
\<close>

theorem C9_coords_unchecked_witness:
  "[''-1,0'' \<mapsto> (1::int)] (coordKey \<lparr>cell_x = -1, cell_y = 0, state = B, burnTime = 0\<rparr>) = Some 1
   \<and> reconstruct \<lparr>json_width = 2, json_height = 1,
        json_cells = [\<lparr>cell_x = -1, cell_y = 0, state = B, burnTime = 0\<rparr>]\<rparr> [''-1,0'' \<mapsto> 1] ! 1
      = Some \<lparr>cell_x = -1, cell_y = 0, state = B, burnTime = 0\<rparr>
   \<and> reconstruct \<lparr>json_width = 2, json_height = 1,
        json_cells = [\<lparr>cell_x = -1, cell_y = 0, state = B, burnTime = 0\<rparr>]\<rparr> Map.empty
      = reconstruct \<lparr>json_width = 2, json_height = 1, json_cells = []\<rparr> Map.empty
   \<and> reconstruct \<lparr>json_width = 2, json_height = 1,
        json_cells = [\<lparr>cell_x = -1, cell_y = 0, state = B, burnTime = 0\<rparr>]\<rparr> Map.empty ! 0
      = Some (treeCell (-1) 0)
   \<and> agrees 2 1 [''-1,0'' \<mapsto> 0] [\<lparr>cell_x = -1, cell_y = 0, state = B, burnTime = 0\<rparr>]
   \<and> reconstruct \<lparr>json_width = 2, json_height = 1,
        json_cells = [\<lparr>cell_x = -1, cell_y = 0, state = B, burnTime = 0\<rparr>]\<rparr> [''-1,0'' \<mapsto> 0] ! 1
      = Some (treeCell 0 0)
   \<and> length (reconstruct \<lparr>json_width = 2, json_height = 1,
        json_cells = [\<lparr>cell_x = -1, cell_y = 0, state = B, burnTime = 0\<rparr>]\<rparr> [''-1,0'' \<mapsto> 0]) = 2
   \<and> agrees 2 1 (rowMajorCoords 2 1) [\<lparr>cell_x = -1, cell_y = 0, state = B, burnTime = 0\<rparr>]
   \<and> agrees 2 1 Map.empty [\<lparr>cell_x = -1, cell_y = 0, state = B, burnTime = 0\<rparr>]"
proof -
  let ?b = "\<lparr>cell_x = -1, cell_y = 0, state = B, burnTime = 0\<rparr>"
  let ?cm = "[''-1,0'' \<mapsto> (0::int)]"
  let ?cn = "[''-1,0'' \<mapsto> (1::int)]"
  note t = C9_coords_unchecked
  have k: "?cn (coordKey ?b) = Some 1" by code_simp
  then have "?cn (coordKey ?b) = Some 1 \<and> (0::int) \<le> 1 \<and> (1::int) < 4294967295
      \<and> (\<forall>d\<in>set []. ?cn (coordKey d) \<noteq> Some 1)" by simp
  from t [THEN conjunct1, rule_format, where w = 2 and h = 1 and cs = "[]", OF this, THEN conjunct2]
  have one: "reconstruct \<lparr>json_width = 2, json_height = 1, json_cells = [?b]\<rparr> ?cn ! 1 = Some ?b"
    by (simp only: append_Nil nat_1 One_nat_def)
  from t [THEN conjunct2, THEN conjunct1, rule_format,
      where w = 2 and h = 1 and cs = "[?b]" and cm = Map.empty]
  have two: "reconstruct \<lparr>json_width = 2, json_height = 1, json_cells = [?b]\<rparr> Map.empty
      = reconstruct \<lparr>json_width = 2, json_height = 1, json_cells = []\<rparr> Map.empty"
    by simp
  have ag: "agrees 2 1 ?cm [?b]" by code_simp
  have bx: "inBox 2 1 0 0" by (simp add: inBox_def)
  have ab: "?cm (coordString 0 0) = None" by code_simp
  have "(0::int) < 2 \<and> (0::int) < 1 \<and> agrees 2 1 ?cm [?b] \<and> inBox 2 1 0 0 \<and> ?cm (coordString 0 0) = None"
    using ag bx ab by simp
  from t [THEN conjunct2, THEN conjunct2, THEN conjunct2, THEN conjunct1, rule_format, OF this]
  have three: "reconstruct \<lparr>json_width = 2, json_height = 1, json_cells = [?b]\<rparr> ?cm ! 1 = Some (treeCell 0 0)"
    by (simp add: rowMajor_def)
  have bl: "inBox 2 1 (-1) 0" by (simp add: inBox_def)
  have no: "\<not> (\<exists>d\<in>set [?b]. (Map.empty :: string \<rightharpoonup> int) (coordKey d) = Some (rowMajor 2 1 (-1) 0))"
    by simp
  have "(0::int) < 2 \<and> (0::int) < 1 \<and> inBox 2 1 (-1) 0" using bl by simp
  from t [THEN conjunct2, THEN conjunct2, THEN conjunct1, rule_format,
      where cs = "[?b]" and cm = Map.empty, OF this] no
  have "reconstruct \<lparr>json_width = 2, json_height = 1, json_cells = [?b]\<rparr> Map.empty
      ! nat (rowMajor 2 1 (-1) 0) = Some (treeCell (-1) 0)" by blast
  then have kept: "reconstruct \<lparr>json_width = 2, json_height = 1, json_cells = [?b]\<rparr> Map.empty ! 0
      = Some (treeCell (-1) 0)"
    by (simp add: rowMajor_def)
  have "(0::int) < 2 \<and> (0::int) < 1 \<and> agrees 2 1 ?cm [?b]" using ag by simp
  from t [THEN conjunct2, THEN conjunct2, THEN conjunct2, THEN conjunct2, THEN conjunct2, THEN conjunct1,
      rule_format, OF this, THEN conjunct1]
  have four: "length (reconstruct \<lparr>json_width = 2, json_height = 1, json_cells = [?b]\<rparr> ?cm) = 2"
    by simp
  have "(0::int) < 2 \<and> (0::int) < 1" by simp
  from t [THEN conjunct2, THEN conjunct2, THEN conjunct2, THEN conjunct2, THEN conjunct2, THEN conjunct2,
      rule_format, where cs = "[?b]", OF this]
  have five: "agrees 2 1 (rowMajorCoords 2 1) [?b]" and six: "agrees 2 1 Map.empty [?b]"
    by blast+
  from k one two kept ag three four five six show ?thesis by (intro conjI)
qed

section \<open>Claim C10: the two variants of the loop\<close>

lemma sameStream_afterWait:
  assumes "sameStream s0 s" "\<not> simulationEnded s0"
  shows "sameStream (fst (afterWait0 ab eng s0)) (fst (afterWait ab eng s))
       \<and> snd (afterWait0 ab eng s0) = snd (afterWait ab eng s)
       \<and> (running (fst (afterWait ab eng s)) \<longrightarrow> \<not> simulationEnded (fst (afterWait0 ab eng s0)))"
  using assms
  by (cases eng)
     (auto simp: sameStream_def afterWait0_def afterWait_def loopBody0_def loopBody_def
        finallyBlock_def close_def send_def enqueue_def Let_def)

lemma sameStream_start:
  assumes "sameStream s0 s"
  shows "sameStream (fst (start0 ab ff s0)) (fst (start ab ff s))
       \<and> snd (start0 ab ff s0) = snd (start ab ff s)
       \<and> (running (fst (start ab ff s)) \<longrightarrow> \<not> simulationEnded (fst (start0 ab ff s0)))"
  using assms
  by (cases ff)
     (auto simp: sameStream_def start0_def start_def finallyBlock_def close_def Let_def)

lemma sameStream_closed:
  "sameStream s0 s \<Longrightarrow> sameStream (s0\<lparr>closed := True\<rparr>) (s\<lparr>closed := True\<rparr>)"
  by (simp add: sameStream_def)

lemma runLoop_sim:
  assumes "sameStream s0 s" "running s \<longrightarrow> \<not> simulationEnded s0"
  shows "sameStream (fst (runLoop0 ts (s0, d))) (fst (runLoop ts (s, d)))
       \<and> snd (runLoop0 ts (s0, d)) = snd (runLoop ts (s, d))"
  using assms
proof (induction ts arbitrary: s0 s d)
  case Nil
  then show ?case by simp
next
  case (Cons t ts)
  show ?case
  proof (cases "running s")
    case False
    with Cons.prems show ?thesis by (simp add: sameStream_def)
  next
    case True
    define c0 where "c0 = (if consumerCancelled t then s0\<lparr>closed := True\<rparr> else s0)"
    define c where "c = (if consumerCancelled t then s\<lparr>closed := True\<rparr> else s)"
    from Cons.prems True have sc: "sameStream c0 c" and ne: "\<not> simulationEnded c0"
      by (simp_all add: c0_def c_def sameStream_closed)
    note aw = sameStream_afterWait [OF sc ne, of "abortedNow t" "engine t"]
    obtain a0 e0 where a0: "afterWait0 (abortedNow t) (engine t) c0 = (a0, e0)" by (cases "afterWait0 (abortedNow t) (engine t) c0")
    obtain a e where a: "afterWait (abortedNow t) (engine t) c = (a, e)" by (cases "afterWait (abortedNow t) (engine t) c")
    from aw a0 a have r: "sameStream a0 a" "e0 = e" "running a \<longrightarrow> \<not> simulationEnded a0" by simp_all
    note ih = Cons.IH [OF r(1) r(3), of e]
    from True Cons.prems have r0: "running s0" by (simp add: sameStream_def)
    have "runLoop0 (t # ts) (s0, d) = (case runLoop0 ts (a0, e) of (s', n, d') \<Rightarrow> (s', Suc n, d'))"
      using r0 a0 r(2) by (simp add: c0_def Let_def)
    moreover have "runLoop (t # ts) (s, d) = (case runLoop ts (a, e) of (s', n, d') \<Rightarrow> (s', Suc n, d'))"
      using True a by (simp add: c_def Let_def)
    ultimately show ?thesis using ih by (simp add: case_prod_beta)
  qed
qed


text \<open>
  Claim C10: the loop of \<open>route.ts\<close>, which leaves by \<open>break\<close>, and the loop of the
  earlier variant, which sets \<open>simulationEnded\<close>, behave alike. Started on streams that
  look the same, with the same result of \<open>findFlammableCells\<close>, and given the same
  firings (the same engine results, the same value of \<open>signal.aborted\<close> and the same
  cancels of the consumer at each), both enqueue the same delta and end events, take
  the same number of firings, end in the same state of the stream, and agree on
  whether the registry entry was deleted.
\<close>

theorem C10_loops_equivalent:
  assumes "sameStream s0 s"
  shows "enqueued (fst (runLoop0 ts (start0 ab ff s0))) = enqueued (fst (runLoop ts (start ab ff s)))
       \<and> fst (snd (runLoop0 ts (start0 ab ff s0))) = fst (snd (runLoop ts (start ab ff s)))
       \<and> snd (snd (runLoop0 ts (start0 ab ff s0))) = snd (snd (runLoop ts (start ab ff s)))
       \<and> sameStream (fst (runLoop0 ts (start0 ab ff s0))) (fst (runLoop ts (start ab ff s)))"
proof -
  obtain a0 e0 where a0: "start0 ab ff s0 = (a0, e0)" by (cases "start0 ab ff s0")
  obtain a e where a: "start ab ff s = (a, e)" by (cases "start ab ff s")
  from sameStream_start [OF assms, of ab ff] a0 a
  have r: "sameStream a0 a" "e0 = e" "running a \<longrightarrow> \<not> simulationEnded a0" by simp_all
  from runLoop_sim [OF r(1) r(3), of ts e]
  have "sameStream (fst (runLoop0 ts (a0, e))) (fst (runLoop ts (a, e)))"
    and "snd (runLoop0 ts (a0, e)) = snd (runLoop ts (a, e))" by simp_all
  then show ?thesis by (simp add: a0 a r(2) sameStream_def)
qed

text \<open>
  Claim C10 at one firing whose engine result has one updated cell and no flammable
  cell left: both loops enqueue the delta and the end event and take one firing.
\<close>

theorem C10_loops_equivalent_witness:
  "sameStream
     \<lparr>sessionId = ''s'', session = 0, flammableCells = [], enqueued = [], closed = False,
        running = False, simulationEnded = False\<rparr>
     \<lparr>sessionId = ''s'', session = 0, flammableCells = [], enqueued = [], closed = False,
        running = False\<rparr>
   \<and> enqueued (fst (runLoop0
        [\<lparr>consumerCancelled = False, abortedNow = False,
           engine = Returns \<lparr>updatedCellsMap = [(''0,0'', \<lparr>cell_x = 0, cell_y = 0, state = E, burnTime = 0\<rparr>)],
                               result_flammableCells = []\<rparr>\<rparr>]
        (start0 False (Returns [''0,0''])
           \<lparr>sessionId = ''s'', session = 0, flammableCells = [], enqueued = [], closed = False,
              running = False, simulationEnded = False\<rparr>)))
      = [DeltaEvent [(''0,0'', \<lparr>cell_x = 0, cell_y = 0, state = E, burnTime = 0\<rparr>)], EndEvent]
   \<and> fst (snd (runLoop0
        [\<lparr>consumerCancelled = False, abortedNow = False,
           engine = Returns \<lparr>updatedCellsMap = [(''0,0'', \<lparr>cell_x = 0, cell_y = 0, state = E, burnTime = 0\<rparr>)],
                               result_flammableCells = []\<rparr>\<rparr>]
        (start0 False (Returns [''0,0''])
           \<lparr>sessionId = ''s'', session = 0, flammableCells = [], enqueued = [], closed = False,
              running = False, simulationEnded = False\<rparr>))) = 1"
proof -
  let ?v = "\<lparr>sessionId = ''s'', session = 0, flammableCells = [], enqueued = [], closed = False,
        running = False, simulationEnded = False\<rparr>"
  let ?r = "\<lparr>sessionId = ''s'', session = 0, flammableCells = [], enqueued = [], closed = False,
        running = False\<rparr>"
  let ?ts = "[\<lparr>consumerCancelled = False, abortedNow = False,
           engine = Returns \<lparr>updatedCellsMap = [(''0,0'', \<lparr>cell_x = 0, cell_y = 0, state = E, burnTime = 0\<rparr>)],
                               result_flammableCells = []\<rparr>\<rparr>]"
  have h: "sameStream ?v ?r" by (simp add: sameStream_def)
  note t = C10_loops_equivalent [OF h, of ?ts False "Returns [''0,0'']"]
  have b: "enqueued (fst (runLoop ?ts (start False (Returns [''0,0'']) ?r)))
      = [DeltaEvent [(''0,0'', \<lparr>cell_x = 0, cell_y = 0, state = E, burnTime = 0\<rparr>)], EndEvent]"
    by (simp add: start_def afterWait_def loopBody_def send_def enqueue_def finallyBlock_def
        close_def Let_def)
  have n: "fst (snd (runLoop ?ts (start False (Returns [''0,0'']) ?r))) = 1"
    by (simp add: start_def afterWait_def loopBody_def send_def enqueue_def finallyBlock_def
        close_def Let_def)
  from t b have one: "enqueued (fst (runLoop0 ?ts (start0 False (Returns [''0,0'']) ?v)))
      = [DeltaEvent [(''0,0'', \<lparr>cell_x = 0, cell_y = 0, state = E, burnTime = 0\<rparr>)], EndEvent]"
    by simp
  from t n have two: "fst (snd (runLoop0 ?ts (start0 False (Returns [''0,0'']) ?v))) = 1"
    by simp
  from h one two show ?thesis by (intro conjI)
qed

section \<open>Claims C4 and C5: cancellation during the wait\<close>

lemma streams_DELETE: "streams (snd (DELETE q sv)) = streams sv"
  by (simp add: DELETE_def deleteSession_def abort_def split: sum.splits option.splits prod.splits)

lemma running_cancel:
  "i < length (streams sv) \<Longrightarrow> running (streams (cancel j sv) ! i) = running (streams sv ! i)"
  by (simp add: cancel_def deleteSession_def abort_def Let_def nth_list_update split: option.splits)

lemma afterWait_aborted:
  "\<not> running (fst (afterWait True eng s))
   \<and> (\<forall>r. eng = Returns r \<longrightarrow> flammableCells (fst (afterWait True eng s)) = result_flammableCells r)
   \<and> (enqueued (fst (afterWait True eng s)) = enqueued s
      \<or> enqueued (fst (afterWait True eng s)) = enqueued s @ [EndEvent])"
  by (cases eng)
     (auto simp: afterWait_def loopBody_def finallyBlock_def close_def send_def enqueue_def Let_def)

lemma timerFires_stream:
  "i < length (streams sv) \<Longrightarrow> running (streams sv ! i) \<Longrightarrow>
   streams (timerFires i eng sv) ! i
     = fst (afterWait (isAborted (session (streams sv ! i)) sv) eng (streams sv ! i))"
  by (simp add: timerFires_def Let_def deleteSession_def split: prod.splits)

text \<open>
  Claim C4, as stated, has the loop stop as soon as the cancellation fires during the
  wait. The wait is a plain timer: after POST, GET and a DELETE that succeeds, the loop
  is still suspended at its \<open>await\<close> although the session is aborted, and when the timer
  fires it calls the engine once more (its result becomes \<open>flammableCells\<close>) before it
  stops.
\<close>

theorem C4_counterexample:
  "fst (DELETE (Some ''s'') (exec [Post sampleBody ''s'', Get (Some ''s'') (Returns [''0,0''])] initServer))
     = SuccessResponse
   \<and> isAborted 0
       (exec [Post sampleBody ''s'', Get (Some ''s'') (Returns [''0,0'']), Delete (Some ''s'')] initServer)
   \<and> running (streams
       (exec [Post sampleBody ''s'', Get (Some ''s'') (Returns [''0,0'']), Delete (Some ''s'')] initServer) ! 0)
   \<and> flammableCells (streams
       (exec [Post sampleBody ''s'', Get (Some ''s'') (Returns [''0,0'']), Delete (Some ''s''),
              Timer 0 (Returns \<lparr>updatedCellsMap = [], result_flammableCells = [''1,0'']\<rparr>)] initServer) ! 0)
     = [''1,0'']"
  by code_simp

text \<open>
  Claim C4, amended: the per-tick wait is not interruptible. A cancellation during the
  wait, by DELETE or by the consumer, leaves every loop suspended as it was; a loop
  whose session is aborted stops only when its timer fires, and it then still calls the
  engine once (the result replaces \<open>flammableCells\<close>), sends no delta, and ends.
\<close>

theorem C4_wait_not_interruptible:
  "streams (snd (DELETE q sv)) = streams sv
   \<and> (\<forall>i j. i < length (streams sv) \<longrightarrow>
         running (streams (cancel j sv) ! i) = running (streams sv ! i))
   \<and> (\<forall>i eng. i < length (streams sv) \<and> running (streams sv ! i)
         \<and> isAborted (session (streams sv ! i)) sv \<longrightarrow>
         \<not> running (streams (timerFires i eng sv) ! i)
       \<and> (\<forall>r. eng = Returns r \<longrightarrow>
             flammableCells (streams (timerFires i eng sv) ! i) = result_flammableCells r)
       \<and> (enqueued (streams (timerFires i eng sv) ! i) = enqueued (streams sv ! i)
          \<or> enqueued (streams (timerFires i eng sv) ! i) = enqueued (streams sv ! i) @ [EndEvent]))"
proof (intro conjI allI impI)
  show "streams (snd (DELETE q sv)) = streams sv" by (rule streams_DELETE)
next
  fix i j
  assume "i < length (streams sv)"
  then show "running (streams (cancel j sv) ! i) = running (streams sv ! i)" by (rule running_cancel)
next
  fix i eng
  assume a: "i < length (streams sv) \<and> running (streams sv ! i) \<and> isAborted (session (streams sv ! i)) sv"
  then have e: "streams (timerFires i eng sv) ! i = fst (afterWait True eng (streams sv ! i))"
    by (simp add: timerFires_stream)
  note t = afterWait_aborted [of eng "streams sv ! i"]
  from t show "\<not> running (streams (timerFires i eng sv) ! i)" by (simp add: e)
  from t show "enqueued (streams (timerFires i eng sv) ! i) = enqueued (streams sv ! i)
      \<or> enqueued (streams (timerFires i eng sv) ! i) = enqueued (streams sv ! i) @ [EndEvent]"
    by (simp add: e)
  fix r
  assume "eng = Returns r"
  with t have "flammableCells (fst (afterWait True eng (streams sv ! i))) = result_flammableCells r"
    by blast
  then show "flammableCells (streams (timerFires i eng sv) ! i) = result_flammableCells r"
    by (simp only: e)
qed

text \<open>
  The amended claim C4 on the server after POST, GET and DELETE: the stream is still
  waiting, and the firing of its timer with a result that has flammable cells left
  ends the loop with that result taken and nothing enqueued.
\<close>

theorem C4_wait_not_interruptible_witness:
  "0 < length (streams (exec [Post sampleBody ''s'', Get (Some ''s'') (Returns [''0,0'']),
        Delete (Some ''s'')] initServer))
   \<and> running (streams (exec [Post sampleBody ''s'', Get (Some ''s'') (Returns [''0,0'']),
        Delete (Some ''s'')] initServer) ! 0)
   \<and> isAborted (session (streams (exec [Post sampleBody ''s'', Get (Some ''s'') (Returns [''0,0'']),
        Delete (Some ''s'')] initServer) ! 0))
        (exec [Post sampleBody ''s'', Get (Some ''s'') (Returns [''0,0'']), Delete (Some ''s'')] initServer)
   \<and> \<not> running (streams (timerFires 0
        (Returns \<lparr>updatedCellsMap = [(''0,0'', treeCell 0 0)], result_flammableCells = [''1,0'']\<rparr>)
        (exec [Post sampleBody ''s'', Get (Some ''s'') (Returns [''0,0'']), Delete (Some ''s'')]
           initServer)) ! 0)
   \<and> flammableCells (streams (timerFires 0
        (Returns \<lparr>updatedCellsMap = [(''0,0'', treeCell 0 0)], result_flammableCells = [''1,0'']\<rparr>)
        (exec [Post sampleBody ''s'', Get (Some ''s'') (Returns [''0,0'']), Delete (Some ''s'')]
           initServer)) ! 0) = [''1,0'']"
proof -
  let ?sv = "exec [Post sampleBody ''s'', Get (Some ''s'') (Returns [''0,0'']), Delete (Some ''s'')] initServer"
  let ?eng = "Returns \<lparr>updatedCellsMap = [(''0,0'', treeCell 0 0)], result_flammableCells = [''1,0'']\<rparr>"
  have l: "0 < length (streams ?sv)" by code_simp
  have r: "running (streams ?sv ! 0)" by code_simp
  have a: "isAborted (session (streams ?sv ! 0)) ?sv" by code_simp
  from l r a have h: "0 < length (streams ?sv) \<and> running (streams ?sv ! 0)
      \<and> isAborted (session (streams ?sv ! 0)) ?sv" by (intro conjI)
  note t = C4_wait_not_interruptible [of _ ?sv, THEN conjunct2, THEN conjunct2, rule_format,
      where i = 0 and eng = ?eng, OF h]
  from t have one: "\<not> running (streams (timerFires 0 ?eng ?sv) ! 0)" by (rule conjunct1)
  from t have "\<forall>r. ?eng = Returns r \<longrightarrow>
      flammableCells (streams (timerFires 0 ?eng ?sv) ! 0) = result_flammableCells r"
    by (intro allI impI) blast
  then have two: "flammableCells (streams (timerFires 0 ?eng ?sv) ! 0) = [''1,0'']" by simp
  from l r a one two show ?thesis by (intro conjI)
qed

text \<open>
  What the loop enqueues in one firing. On an aborted session \<open>send\<close> enqueues nothing;
  a delta is enqueued only for a map of updated cells that is not empty, and the end
  event only for a result with no flammable cell, after which the loop is left.
\<close>

lemma send_aborted: "send True m s = Inr s"
  by (simp add: send_def)

lemma loopBody_enqueued:
  "enqueued (fst (loopBody ab (Returns r) s)) = enqueued s
     @ (if updatedCellsMap r \<noteq> [] \<and> \<not> ab \<and> \<not> closed s then [DeltaEvent (updatedCellsMap r)] else [])
     @ (if result_flammableCells r = [] \<and> \<not> closed s then [EndEvent] else [])"
  by (simp add: loopBody_def send_def enqueue_def Let_def)

lemma afterWait_end_event_last:
  "EndEvent \<in> set (enqueued (fst (afterWait ab eng s))) \<Longrightarrow> EndEvent \<notin> set (enqueued s) \<Longrightarrow>
     \<not> running (fst (afterWait ab eng s)) \<and> last (enqueued (fst (afterWait ab eng s))) = EndEvent"
  by (cases eng)
     (auto simp: afterWait_def loopBody_def finallyBlock_def close_def send_def enqueue_def Let_def
        split: if_splits)

text \<open>
  Claim C5 fails on the code at a cancellation during the wait: \<open>send\<close> tests
  \<open>signal.aborted\<close> before it enqueues a delta, the end event is enqueued without that
  test. After POST, GET and a DELETE that succeeds, the session is aborted and nothing
  has been enqueued; when the timer then fires with a result that leaves no flammable
  cell, the end event is enqueued.
\<close>

theorem C5_end_event_after_cancel:
  "fst (DELETE (Some ''s'') (exec [Post sampleBody ''s'', Get (Some ''s'') (Returns [''0,0''])] initServer))
     = SuccessResponse
   \<and> isAborted 0
       (exec [Post sampleBody ''s'', Get (Some ''s'') (Returns [''0,0'']), Delete (Some ''s'')] initServer)
   \<and> enqueued (streams
       (exec [Post sampleBody ''s'', Get (Some ''s'') (Returns [''0,0'']), Delete (Some ''s'')] initServer) ! 0)
     = []
   \<and> enqueued (streams
       (exec [Post sampleBody ''s'', Get (Some ''s'') (Returns [''0,0'']), Delete (Some ''s''),
              Timer 0 (Returns \<lparr>updatedCellsMap = [], result_flammableCells = []\<rparr>)] initServer) ! 0)
     = [EndEvent]"
  by code_simp

section \<open>The effect of the handlers\<close>

lemma finallyBlock_effect:
  "finallyBlock s = (s', del) \<Longrightarrow>
     sessionId s' = sessionId s \<and> session s' = session s \<and> closed s' \<and> \<not> running s'
     \<and> (del \<or> closed s) \<and> enqueued s' = enqueued s"
  by (auto simp: finallyBlock_def close_def split: if_splits)

lemma start_effect:
  "start ab ff s = (s', del) \<Longrightarrow>
     sessionId s' = sessionId s \<and> session s' = session s
     \<and> (\<not> running s' \<longrightarrow> closed s') \<and> (closed s' \<longrightarrow> del \<or> closed s) \<and> (del \<longrightarrow> closed s')"
  by (cases ff) (auto simp: start_def Let_def dest!: finallyBlock_effect split: if_splits)

lemma loopBody_effect:
  "loopBody ab eng s = (s', fl) \<Longrightarrow>
     sessionId s' = sessionId s \<and> session s' = session s \<and> closed s' = closed s
     \<and> running s' = running s"
  by (cases eng)
     (auto simp: loopBody_def send_def enqueue_def Let_def split: if_splits sum.splits)

lemma afterWait_effect:
  "afterWait ab eng s = (s', del) \<Longrightarrow>
     sessionId s' = sessionId s \<and> session s' = session s
     \<and> (running s \<and> \<not> running s' \<longrightarrow> closed s') \<and> (closed s' \<longrightarrow> del \<or> closed s)
     \<and> (closed s \<longrightarrow> closed s') \<and> (del \<longrightarrow> closed s')"
proof -
  assume a: "afterWait ab eng s = (s', del)"
  obtain s1 fl where l: "loopBody ab eng s = (s1, fl)" by (cases "loopBody ab eng s")
  note le = loopBody_effect [OF l]
  show ?thesis
  proof (cases "fl = Fallthrough \<and> \<not> ab")
    case True
    with a l have "s' = s1" "del = False" by (simp_all add: afterWait_def)
    with le show ?thesis by simp
  next
    case False
    with a l have "finallyBlock s1 = (s', del)" by (cases fl) (simp_all add: afterWait_def)
    from finallyBlock_effect [OF this] le show ?thesis by auto
  qed
qed

lemma POST_with_effect:
  "POST_with gen request uuid sv = (r, sv') \<Longrightarrow>
     (sv' = sv \<and> (\<exists>msg code. r = ErrorResponse msg code))
     \<or> (r = SessionCreated uuid \<and> streams sv' = streams sv
        \<and> sessions sv' = (sessions sv)(uuid \<mapsto> nextAddr sv)
        \<and> nextAddr sv' = Suc (nextAddr sv)
        \<and> (\<exists>se. heap sv' = (heap sv)(nextAddr sv \<mapsto> se) \<and> \<not> aborted se))"
  by (auto simp: POST_with_def Let_def split: outcome.splits option.splits sum.splits)

lemma POST_effect:
  "POST request uuid sv = (r, sv') \<Longrightarrow>
     (sv' = sv \<and> (\<exists>msg code. r = ErrorResponse msg code))
     \<or> (r = SessionCreated uuid \<and> streams sv' = streams sv
        \<and> sessions sv' = (sessions sv)(uuid \<mapsto> nextAddr sv)
        \<and> nextAddr sv' = Suc (nextAddr sv)
        \<and> (\<exists>se. heap sv' = (heap sv)(nextAddr sv \<mapsto> se) \<and> \<not> aborted se))"
  unfolding POST_def by (rule POST_with_effect)

lemma lookupSession_Inr:
  "lookupSession q sv = Inr (sid, a, se) \<longleftrightarrow>
     q = Some sid \<and> sid \<noteq> [] \<and> sessions sv sid = Some a \<and> heap sv a = Some se"
  by (auto simp: lookupSession_def split: option.splits if_splits)

lemma lookupSession_Inl:
  "lookupSession q sv = Inl r \<Longrightarrow> r = UnknownSession \<or> r = ErrorResponse ''Session not found'' 404"
  by (auto simp: lookupSession_def UnknownSession_def split: option.splits if_splits)

lemma lookupSession_absent:
  "sessions sv sid = None \<Longrightarrow> lookupSession (Some sid) sv = Inl UnknownSession"
  by (simp add: lookupSession_def UnknownSession_def)

section \<open>Invariants of the server\<close>

lemma wellFormed_init: "wellFormed initServer"
  by (simp add: wellFormed_def regBounded_def regInjective_def regLive_def streamsBounded_def
      streamsKeyed_def streamsReleased_def streamsEnded_def initServer_def)

lemma wellFormed_register:
  assumes w: "wellFormed sv"
    and st: "streams sv' = streams sv"
    and se: "sessions sv' = (sessions sv)(uuid \<mapsto> nextAddr sv)"
    and nx: "nextAddr sv' = Suc (nextAddr sv)"
    and hp: "heap sv' = (heap sv)(nextAddr sv \<mapsto> e)" "\<not> aborted e"
  shows "wellFormed sv'"
proof -
  from w have rb: "regBounded sv" and ri: "regInjective sv" and rl: "regLive sv"
    and sb: "streamsBounded sv" and sk: "streamsKeyed sv" and sr: "streamsReleased sv"
    and sn: "streamsEnded sv"
    by (simp_all add: wellFormed_def)
  have old: "a < nextAddr sv" if "sessions sv k = Some a" for k a
    using rb that by (auto simp: regBounded_def)
  have 1: "regBounded sv'"
    unfolding regBounded_def se nx using old by (auto simp: less_Suc_eq)
  have 2: "regInjective sv'"
    unfolding regInjective_def se using ri old by (fastforce simp: regInjective_def split: if_splits)
  have 3: "regLive sv'"
    unfolding regLive_def se hp using rl old hp(2) by (fastforce simp: regLive_def split: if_splits)
  have 4: "streamsBounded sv'"
    unfolding streamsBounded_def st nx using sb by (auto simp: streamsBounded_def less_Suc_eq)
  have 5: "streamsKeyed sv'"
    unfolding streamsKeyed_def st se using sk sb
    by (fastforce simp: streamsKeyed_def streamsBounded_def split: if_splits)
  have 6: "streamsReleased sv'"
    unfolding streamsReleased_def st se using sr sb
    by (fastforce simp: streamsReleased_def streamsBounded_def split: if_splits)
  have 7: "streamsEnded sv'"
    unfolding streamsEnded_def st using sn by (simp add: streamsEnded_def)
  from 1 2 3 4 5 6 7 show ?thesis by (simp add: wellFormed_def)
qed

lemma wellFormed_POST: "wellFormed sv \<Longrightarrow> wellFormed (snd (POST request uuid sv))"
proof -
  assume w: "wellFormed sv"
  obtain r sv' where p: "POST request uuid sv = (r, sv')" by (cases "POST request uuid sv")
  from POST_effect [OF p] show ?thesis
  proof
    assume "sv' = sv \<and> (\<exists>msg code. r = ErrorResponse msg code)"
    with w p show ?thesis by simp
  next
    assume "r = SessionCreated uuid \<and> streams sv' = streams sv
        \<and> sessions sv' = (sessions sv)(uuid \<mapsto> nextAddr sv)
        \<and> nextAddr sv' = Suc (nextAddr sv)
        \<and> (\<exists>se. heap sv' = (heap sv)(nextAddr sv \<mapsto> se) \<and> \<not> aborted se)"
    then obtain e where "streams sv' = streams sv" "sessions sv' = (sessions sv)(uuid \<mapsto> nextAddr sv)"
      "nextAddr sv' = Suc (nextAddr sv)" "heap sv' = (heap sv)(nextAddr sv \<mapsto> e)" "\<not> aborted e"
      by blast
    from wellFormed_register [OF w this] p show ?thesis by simp
  qed
qed

lemma wellFormed_update:
  assumes w: "wellFormed sv"
    and nx: "nextAddr sv' = nextAddr sv"
    and se: "\<And>k. sessions sv' k = sessions sv k \<or> sessions sv' k = None"
    and hp: "\<And>a. heap sv' a = heap sv a \<or> (\<forall>k. sessions sv' k \<noteq> Some a)"
    and st: "\<And>s. s \<in> set (streams sv') \<Longrightarrow> s \<in> set (streams sv) \<or>
        (session s < nextAddr sv
         \<and> (\<forall>k. sessions sv' k = Some (session s) \<longrightarrow> k = sessionId s)
         \<and> (closed s \<or> \<not> running s \<longrightarrow> (\<forall>k. sessions sv' k \<noteq> Some (session s)))
         \<and> (\<not> running s \<longrightarrow> closed s))"
  shows "wellFormed sv'"
proof -
  from w have rb: "regBounded sv" and ri: "regInjective sv" and rl: "regLive sv"
    and sb: "streamsBounded sv" and sk: "streamsKeyed sv" and sr: "streamsReleased sv"
    and sn: "streamsEnded sv"
    by (simp_all add: wellFormed_def)
  have keep: "sessions sv k = Some a" if "sessions sv' k = Some a" for k a
    using se [of k] that by auto
  have 1: "regBounded sv'"
    unfolding regBounded_def nx using rb keep by (auto simp: regBounded_def)
  have 2: "regInjective sv'"
    unfolding regInjective_def
  proof (intro allI impI)
    fix k k' a
    assume "sessions sv' k = Some a \<and> sessions sv' k' = Some a"
    then have "sessions sv k = Some a \<and> sessions sv k' = Some a" using keep by blast
    with ri show "k = k'" unfolding regInjective_def by blast
  qed
  have 3: "regLive sv'"
    unfolding regLive_def
  proof (intro allI impI)
    fix k a
    assume a: "sessions sv' k = Some a"
    then have "sessions sv k = Some a" by (rule keep)
    with rl obtain e where e: "heap sv a = Some e" "\<not> aborted e" unfolding regLive_def by blast
    from hp [of a] a have "heap sv' a = heap sv a" by blast
    with e show "\<exists>se. heap sv' a = Some se \<and> \<not> aborted se" by simp
  qed
  have 4: "streamsBounded sv'"
    unfolding streamsBounded_def nx
  proof
    fix s assume "s \<in> set (streams sv')"
    from st [OF this] sb show "session s < nextAddr sv" unfolding streamsBounded_def by blast
  qed
  have 5: "streamsKeyed sv'"
    unfolding streamsKeyed_def
  proof (intro ballI allI impI)
    fix s k
    assume s: "s \<in> set (streams sv')" and k: "sessions sv' k = Some (session s)"
    from st [OF s] show "k = sessionId s"
    proof
      assume "s \<in> set (streams sv)"
      with sk keep [OF k] show ?thesis unfolding streamsKeyed_def by blast
    next
      assume "session s < nextAddr sv
         \<and> (\<forall>k. sessions sv' k = Some (session s) \<longrightarrow> k = sessionId s)
         \<and> (closed s \<or> \<not> running s \<longrightarrow> (\<forall>k. sessions sv' k \<noteq> Some (session s)))
         \<and> (\<not> running s \<longrightarrow> closed s)"
      with k show ?thesis by blast
    qed
  qed
  have 6: "streamsReleased sv'"
    unfolding streamsReleased_def
  proof (intro ballI allI impI)
    fix s k
    assume s: "s \<in> set (streams sv')" and c: "closed s \<or> \<not> running s"
    from st [OF s] show "sessions sv' k \<noteq> Some (session s)"
    proof
      assume "s \<in> set (streams sv)"
      with sr c have "sessions sv k \<noteq> Some (session s)" unfolding streamsReleased_def by blast
      with keep [of k "session s"] show ?thesis by blast
    next
      assume "session s < nextAddr sv
         \<and> (\<forall>k. sessions sv' k = Some (session s) \<longrightarrow> k = sessionId s)
         \<and> (closed s \<or> \<not> running s \<longrightarrow> (\<forall>k. sessions sv' k \<noteq> Some (session s)))
         \<and> (\<not> running s \<longrightarrow> closed s)"
      with c show ?thesis by blast
    qed
  qed
  have 7: "streamsEnded sv'"
    unfolding streamsEnded_def
  proof (intro ballI impI)
    fix s
    assume s: "s \<in> set (streams sv')" and r: "\<not> running s"
    from st [OF s] show "closed s"
    proof
      assume "s \<in> set (streams sv)"
      with sn r show ?thesis unfolding streamsEnded_def by blast
    next
      assume "session s < nextAddr sv
         \<and> (\<forall>k. sessions sv' k = Some (session s) \<longrightarrow> k = sessionId s)
         \<and> (closed s \<or> \<not> running s \<longrightarrow> (\<forall>k. sessions sv' k \<noteq> Some (session s)))
         \<and> (\<not> running s \<longrightarrow> closed s)"
      with r show ?thesis by blast
    qed
  qed
  from 1 2 3 4 5 6 7 show ?thesis by (simp add: wellFormed_def)
qed

lemma abort_fields:
  "sessions (abort a sv) = sessions sv" "nextAddr (abort a sv) = nextAddr sv"
  "streams (abort a sv) = streams sv" "a' \<noteq> a \<Longrightarrow> heap (abort a sv) a' = heap sv a'"
  by (simp_all add: abort_def split: option.splits)

lemma deleteSession_fields:
  "sessions (deleteSession sid sv) = (sessions sv)(sid := None)"
  "nextAddr (deleteSession sid sv) = nextAddr sv"
  "streams (deleteSession sid sv) = streams sv" "heap (deleteSession sid sv) = heap sv"
  by (simp_all add: deleteSession_def)

lemma wellFormed_abort_delete:
  assumes w: "wellFormed sv" and only: "\<And>k. sessions sv k = Some a \<Longrightarrow> k = sid"
  shows "wellFormed (deleteSession sid (abort a sv))"
proof (rule wellFormed_update [OF w])
  show "nextAddr (deleteSession sid (abort a sv)) = nextAddr sv"
    by (simp add: deleteSession_fields abort_fields)
next
  fix k
  show "sessions (deleteSession sid (abort a sv)) k = sessions sv k
      \<or> sessions (deleteSession sid (abort a sv)) k = None"
    by (simp add: deleteSession_fields abort_fields)
next
  fix a'
  show "heap (deleteSession sid (abort a sv)) a' = heap sv a'
      \<or> (\<forall>k. sessions (deleteSession sid (abort a sv)) k \<noteq> Some a')"
  proof (cases "a' = a")
    case True
    have "sessions (deleteSession sid (abort a sv)) k \<noteq> Some a" for k
      using only [of k] by (auto simp: deleteSession_fields abort_fields)
    with True show ?thesis by simp
  next
    case False
    then show ?thesis by (simp add: deleteSession_fields abort_fields)
  qed
next
  fix s
  assume "s \<in> set (streams (deleteSession sid (abort a sv)))"
  then show "s \<in> set (streams sv) \<or>
        (session s < nextAddr sv
         \<and> (\<forall>k. sessions (deleteSession sid (abort a sv)) k = Some (session s) \<longrightarrow> k = sessionId s)
         \<and> (closed s \<or> \<not> running s \<longrightarrow>
             (\<forall>k. sessions (deleteSession sid (abort a sv)) k \<noteq> Some (session s)))
         \<and> (\<not> running s \<longrightarrow> closed s))"
    by (simp add: deleteSession_fields abort_fields)
qed

lemma wellFormed_DELETE: "wellFormed sv \<Longrightarrow> wellFormed (snd (DELETE q sv))"
proof -
  assume w: "wellFormed sv"
  show ?thesis
  proof (cases "lookupSession q sv")
    case (Inl r)
    with w show ?thesis by (simp add: DELETE_def)
  next
    case (Inr t)
    obtain sid a se where t: "t = (sid, a, se)" by (cases t)
    from Inr t have l: "sessions sv sid = Some a" by (simp add: lookupSession_Inr)
    from w have "regInjective sv" by (simp add: wellFormed_def)
    with l have "k = sid" if "sessions sv k = Some a" for k
      using that unfolding regInjective_def by blast
    from wellFormed_abort_delete [OF w this] Inr t show ?thesis by (simp add: DELETE_def)
  qed
qed

lemma wellFormed_stream:
  assumes w: "wellFormed sv"
    and st: "set (streams sv1) \<subseteq> insert s (set (streams sv))"
    and same: "sessions sv1 = sessions sv" "heap sv1 = heap sv" "nextAddr sv1 = nextAddr sv"
    and bd: "session s < nextAddr sv"
    and ky: "\<And>k. sessions sv k = Some (session s) \<Longrightarrow> k = sessionId s"
    and en: "\<not> running s \<longrightarrow> closed s"
    and cl: "closed s \<longrightarrow> del \<or> (\<forall>k. sessions sv k \<noteq> Some (session s))"
  shows "wellFormed (if del then deleteSession (sessionId s) sv1 else sv1)"
proof (rule wellFormed_update [OF w])
  let ?sv = "if del then deleteSession (sessionId s) sv1 else sv1"
  show "nextAddr ?sv = nextAddr sv" by (simp add: deleteSession_fields same)
  show "sessions ?sv k = sessions sv k \<or> sessions ?sv k = None" for k
    by (simp add: deleteSession_fields same)
  show "heap ?sv a = heap sv a \<or> (\<forall>k. sessions ?sv k \<noteq> Some a)" for a
    by (simp add: deleteSession_fields same)
  fix s'
  assume "s' \<in> set (streams ?sv)"
  then have "s' \<in> set (streams sv1)" by (simp add: deleteSession_fields split: if_splits)
  with st have "s' = s \<or> s' \<in> set (streams sv)" by blast
  then show "s' \<in> set (streams sv) \<or>
        (session s' < nextAddr sv
         \<and> (\<forall>k. sessions ?sv k = Some (session s') \<longrightarrow> k = sessionId s')
         \<and> (closed s' \<or> \<not> running s' \<longrightarrow> (\<forall>k. sessions ?sv k \<noteq> Some (session s')))
         \<and> (\<not> running s' \<longrightarrow> closed s'))"
  proof
    assume e: "s' = s"
    have keep: "sessions sv k = Some b" if "sessions ?sv k = Some b" for k b
      using that by (simp add: deleteSession_fields same split: if_splits)
    have k1: "\<forall>k. sessions ?sv k = Some (session s) \<longrightarrow> k = sessionId s"
      using keep ky by blast
    have k2: "closed s \<or> \<not> running s \<longrightarrow> (\<forall>k. sessions ?sv k \<noteq> Some (session s))"
    proof (intro impI allI)
      fix k
      assume "closed s \<or> \<not> running s"
      with en have c: "closed s" by blast
      show "sessions ?sv k \<noteq> Some (session s)"
      proof (cases del)
        case True
        show ?thesis
        proof
          assume a: "sessions ?sv k = Some (session s)"
          with keep have "sessions sv k = Some (session s)" by blast
          then have "k = sessionId s" by (rule ky)
          with a True show False by (simp add: deleteSession_fields)
        qed
      next
        case False
        with c cl have "sessions sv k \<noteq> Some (session s)" by blast
        with keep show ?thesis by blast
      qed
    qed
    from bd k1 k2 en show ?thesis by (simp add: e)
  next
    assume "s' \<in> set (streams sv)"
    then show ?thesis by simp
  qed
qed

lemma wellFormed_GET: "wellFormed sv \<Longrightarrow> wellFormed (snd (GET q ff sv))"
proof -
  assume w: "wellFormed sv"
  show ?thesis
  proof (cases "lookupSession q sv")
    case (Inl r)
    with w show ?thesis by (simp add: GET_def)
  next
    case (Inr t)
    obtain sid a se where t: "t = (sid, a, se)" by (cases t)
    from Inr t have l: "sessions sv sid = Some a" by (simp add: lookupSession_Inr)
    define s0 where "s0 = \<lparr>sessionId = sid, session = a, flammableCells = [], enqueued = [],
                     closed = False, running = False\<rparr>"
    obtain s del where sd: "start (aborted se) ff s0 = (s, del)" by (cases "start (aborted se) ff s0")
    from start_effect [OF sd] have e: "sessionId s = sid" "session s = a"
        "\<not> running s \<longrightarrow> closed s" "closed s \<longrightarrow> del"
      by (simp_all add: s0_def)
    define sv1 where "sv1 = sv\<lparr>streams := streams sv @ [s]\<rparr>"
    from w have ri: "regInjective sv" and rb: "regBounded sv" by (simp_all add: wellFormed_def)
    have "wellFormed (if del then deleteSession (sessionId s) sv1 else sv1)"
    proof (rule wellFormed_stream [OF w])
      show "set (streams sv1) \<subseteq> insert s (set (streams sv))" by (auto simp: sv1_def)
      show "sessions sv1 = sessions sv" "heap sv1 = heap sv" "nextAddr sv1 = nextAddr sv"
        by (simp_all add: sv1_def)
      from rb l show "session s < nextAddr sv" unfolding regBounded_def e by blast
      from ri l show "k = sessionId s" if "sessions sv k = Some (session s)" for k
        using that unfolding regInjective_def e by blast
      from e show "\<not> running s \<longrightarrow> closed s" by blast
      from e show "closed s \<longrightarrow> del \<or> (\<forall>k. sessions sv k \<noteq> Some (session s))" by blast
    qed
    moreover have "snd (GET q ff sv) = (if del then deleteSession (sessionId s) sv1 else sv1)"
      using Inr t sd by (simp add: GET_def s0_def sv1_def e Let_def)
    ultimately show ?thesis by simp
  qed
qed

lemma wellFormed_timerFires: "wellFormed sv \<Longrightarrow> wellFormed (timerFires i eng sv)"
proof -
  assume w: "wellFormed sv"
  show ?thesis
  proof (cases "i < length (streams sv) \<and> running (streams sv ! i)")
    case False
    with w show ?thesis by (auto simp: timerFires_def)
  next
    case True
    define s where "s = streams sv ! i"
    from True have m: "s \<in> set (streams sv)" and r: "running s" by (simp_all add: s_def)
    obtain s' del where aw: "afterWait (isAborted (session s) sv) eng s = (s', del)"
      by (cases "afterWait (isAborted (session s) sv) eng s")
    from afterWait_effect [OF aw] r have e: "sessionId s' = sessionId s" "session s' = session s"
        "\<not> running s' \<longrightarrow> closed s'" "closed s' \<longrightarrow> del \<or> closed s"
      by simp_all
    define sv1 where "sv1 = sv\<lparr>streams := (streams sv)[i := s']\<rparr>"
    from w have sb: "streamsBounded sv" and sk: "streamsKeyed sv" and sr: "streamsReleased sv"
      by (simp_all add: wellFormed_def)
    have "wellFormed (if del then deleteSession (sessionId s') sv1 else sv1)"
    proof (rule wellFormed_stream [OF w])
      show "set (streams sv1) \<subseteq> insert s' (set (streams sv))"
        by (simp add: sv1_def set_update_subset_insert)
      show "sessions sv1 = sessions sv" "heap sv1 = heap sv" "nextAddr sv1 = nextAddr sv"
        by (simp_all add: sv1_def)
      from sb m show "session s' < nextAddr sv" unfolding streamsBounded_def e by blast
      from sk m show "k = sessionId s'" if "sessions sv k = Some (session s')" for k
        using that unfolding streamsKeyed_def e by blast
      from e show "\<not> running s' \<longrightarrow> closed s'" by blast
      from sr m e show "closed s' \<longrightarrow> del \<or> (\<forall>k. sessions sv k \<noteq> Some (session s'))"
        unfolding streamsReleased_def by auto
    qed
    moreover have "timerFires i eng sv = (if del then deleteSession (sessionId s') sv1 else sv1)"
      using True aw by (simp add: timerFires_def s_def [symmetric] sv1_def e Let_def)
    ultimately show ?thesis by simp
  qed
qed

lemma wellFormed_cancel: "wellFormed sv \<Longrightarrow> wellFormed (cancel i sv)"
proof -
  assume w: "wellFormed sv"
  show ?thesis
  proof (cases "i < length (streams sv)")
    case False
    with w show ?thesis by (auto simp: cancel_def)
  next
    case True
    define s where "s = streams sv ! i"
    from True have m: "s \<in> set (streams sv)" by (simp add: s_def)
    define sv1 where "sv1 = sv\<lparr>streams := (streams sv)[i := s\<lparr>closed := True\<rparr>]\<rparr>"
    let ?sv = "deleteSession (sessionId s) (abort (session s) sv1)"
    from w have sb: "streamsBounded sv" and sk: "streamsKeyed sv"
      by (simp_all add: wellFormed_def)
    from sk m have only: "k = sessionId s" if "sessions sv k = Some (session s)" for k
      using that unfolding streamsKeyed_def by blast
    have gone: "sessions ?sv k \<noteq> Some (session s)" for k
      using only [of k] by (auto simp: deleteSession_fields abort_fields sv1_def)
    have "wellFormed ?sv"
    proof (rule wellFormed_update [OF w])
      show "nextAddr ?sv = nextAddr sv" by (simp add: deleteSession_fields abort_fields sv1_def)
      show "sessions ?sv k = sessions sv k \<or> sessions ?sv k = None" for k
        by (simp add: deleteSession_fields abort_fields sv1_def)
      show "heap ?sv a = heap sv a \<or> (\<forall>k. sessions ?sv k \<noteq> Some a)" for a
      proof (cases "a = session s")
        case True
        with gone show ?thesis by simp
      next
        case False
        then show ?thesis by (simp add: deleteSession_fields abort_fields sv1_def)
      qed
      fix s'
      assume "s' \<in> set (streams ?sv)"
      then have "s' \<in> set ((streams sv)[i := s\<lparr>closed := True\<rparr>])"
        by (simp add: deleteSession_fields abort_fields sv1_def)
      then have "s' = s\<lparr>closed := True\<rparr> \<or> s' \<in> set (streams sv)"
        using set_update_subset_insert [of "streams sv" i "s\<lparr>closed := True\<rparr>"] by blast
      then show "s' \<in> set (streams sv) \<or>
        (session s' < nextAddr sv
         \<and> (\<forall>k. sessions ?sv k = Some (session s') \<longrightarrow> k = sessionId s')
         \<and> (closed s' \<or> \<not> running s' \<longrightarrow> (\<forall>k. sessions ?sv k \<noteq> Some (session s')))
         \<and> (\<not> running s' \<longrightarrow> closed s'))"
      proof
        assume e: "s' = s\<lparr>closed := True\<rparr>"
        from sb m have "session s < nextAddr sv" unfolding streamsBounded_def by blast
        with gone show ?thesis by (simp add: e)
      next
        assume "s' \<in> set (streams sv)"
        then show ?thesis by simp
      qed
    qed
    moreover have "cancel i sv = ?sv"
      using True by (simp add: cancel_def s_def [symmetric] sv1_def Let_def)
    ultimately show ?thesis by simp
  qed
qed

lemma wellFormed_step: "wellFormed sv \<Longrightarrow> wellFormed (step e sv)"
  by (cases e)
     (simp_all add: wellFormed_POST wellFormed_GET wellFormed_DELETE wellFormed_timerFires
        wellFormed_cancel)

lemma wellFormed_exec: "wellFormed sv \<Longrightarrow> wellFormed (exec evs sv)"
  by (induction evs arbitrary: sv) (simp_all add: wellFormed_step)

lemma wellFormed_reachable: "wellFormed (exec evs initServer)"
  by (rule wellFormed_exec) (rule wellFormed_init)

section \<open>Claim C6: the registry entry is released\<close>





section \<open>Sequences of events with fresh ids\<close>

lemma traceInv_shrink:
  assumes t: "traceInv ids sv"
    and se: "\<And>k. sessions sv' k = sessions sv k \<or> sessions sv' k = None"
    and st: "\<And>s'. s' \<in> set (streams sv') \<Longrightarrow>
        (\<exists>s\<in>set (streams sv). sessionId s' = sessionId s \<and> session s' = session s)
        \<or> sessions sv (sessionId s') = Some (session s')"
  shows "traceInv ids sv'"
proof -
  have keep: "sessions sv k = Some a" if "sessions sv' k = Some a" for k a
    using se [of k] that by auto
  have 1: "\<forall>k a. sessions sv' k = Some a \<longrightarrow> k \<in> set ids"
    using t keep unfolding traceInv_def by blast
  have 2: "sessionId s' \<in> set ids \<and> (\<forall>a. sessions sv' (sessionId s') = Some a \<longrightarrow> a = session s')"
    if m: "s' \<in> set (streams sv')" for s'
    using st [OF m]
  proof
    assume "\<exists>s\<in>set (streams sv). sessionId s' = sessionId s \<and> session s' = session s"
    then obtain s where s: "s \<in> set (streams sv)" "sessionId s' = sessionId s" "session s' = session s"
      by blast
    from t s(1) have "sessionId s \<in> set ids" "\<forall>a. sessions sv (sessionId s) = Some a \<longrightarrow> a = session s"
      unfolding traceInv_def by blast+
    with s keep show ?thesis by auto
  next
    assume a: "sessions sv (sessionId s') = Some (session s')"
    with t have "sessionId s' \<in> set ids" unfolding traceInv_def by blast
    moreover have "\<forall>b. sessions sv' (sessionId s') = Some b \<longrightarrow> b = session s'"
      using keep a by fastforce
    ultimately show ?thesis by blast
  qed
  from 1 2 show ?thesis unfolding traceInv_def by blast
qed

lemma traceInv_POST:
  assumes t: "traceInv ids sv" and f: "uuid \<notin> set ids"
  shows "traceInv (ids @ [uuid]) (snd (POST request uuid sv))"
proof -
  obtain r sv' where p: "POST request uuid sv = (r, sv')" by (cases "POST request uuid sv")
  from POST_effect [OF p]
  have "streams sv' = streams sv \<and> (sessions sv' = sessions sv \<or> sessions sv' = (sessions sv)(uuid \<mapsto> nextAddr sv))"
    by auto
  then have st: "streams sv' = streams sv"
    and se: "sessions sv' k = Some a \<Longrightarrow> sessions sv k = Some a \<or> k = uuid" for k a
    by (auto split: if_splits)
  have 1: "\<forall>k a. sessions sv' k = Some a \<longrightarrow> k \<in> set (ids @ [uuid])"
    using t se unfolding traceInv_def by fastforce
  have 2: "sessionId s \<in> set (ids @ [uuid])
      \<and> (\<forall>a. sessions sv' (sessionId s) = Some a \<longrightarrow> a = session s)"
    if m: "s \<in> set (streams sv')" for s
  proof -
    from m st t have i: "sessionId s \<in> set ids"
      and o: "\<forall>a. sessions sv (sessionId s) = Some a \<longrightarrow> a = session s"
      unfolding traceInv_def by auto
    from i f have "sessionId s \<noteq> uuid" by blast
    with se o have "\<forall>a. sessions sv' (sessionId s) = Some a \<longrightarrow> a = session s" by blast
    with i show ?thesis by simp
  qed
  from 1 2 p show ?thesis unfolding traceInv_def by simp
qed

lemma traceInv_DELETE: "traceInv ids sv \<Longrightarrow> traceInv ids (snd (DELETE q sv))"
proof (rule traceInv_shrink)
  show "sessions (snd (DELETE q sv)) k = sessions sv k \<or> sessions (snd (DELETE q sv)) k = None" for k
    by (simp add: DELETE_def deleteSession_fields abort_fields split: sum.splits prod.splits)
  show "(\<exists>s\<in>set (streams sv). sessionId s' = sessionId s \<and> session s' = session s)
        \<or> sessions sv (sessionId s') = Some (session s')"
    if "s' \<in> set (streams (snd (DELETE q sv)))" for s'
    using that by (auto simp: streams_DELETE)
qed

lemma traceInv_GET: "traceInv ids sv \<Longrightarrow> traceInv ids (snd (GET q ff sv))"
proof (cases "lookupSession q sv")
  case (Inl r)
  assume "traceInv ids sv"
  with Inl show ?thesis by (simp add: GET_def)
next
  case (Inr t)
  assume ti: "traceInv ids sv"
  obtain sid a se where t: "t = (sid, a, se)" by (cases t)
  from Inr t have l: "sessions sv sid = Some a" by (simp add: lookupSession_Inr)
  define s0 where "s0 = \<lparr>sessionId = sid, session = a, flammableCells = [], enqueued = [],
                     closed = False, running = False\<rparr>"
  obtain s del where sd: "start (aborted se) ff s0 = (s, del)" by (cases "start (aborted se) ff s0")
  from start_effect [OF sd] have e: "sessionId s = sid" "session s = a" by (simp_all add: s0_def)
  define sv1 where "sv1 = sv\<lparr>streams := streams sv @ [s]\<rparr>"
  have g: "snd (GET q ff sv) = (if del then deleteSession sid sv1 else sv1)"
    using Inr t sd by (simp add: GET_def s0_def sv1_def Let_def)
  show ?thesis
  proof (rule traceInv_shrink [OF ti])
    show "sessions (snd (GET q ff sv)) k = sessions sv k \<or> sessions (snd (GET q ff sv)) k = None" for k
      by (simp add: g deleteSession_fields sv1_def)
    fix s'
    assume "s' \<in> set (streams (snd (GET q ff sv)))"
    then have "s' \<in> set (streams sv) \<or> s' = s"
      by (auto simp: g deleteSession_fields sv1_def split: if_splits)
    then show "(\<exists>s\<in>set (streams sv). sessionId s' = sessionId s \<and> session s' = session s)
        \<or> sessions sv (sessionId s') = Some (session s')"
      using l e by auto
  qed
qed

lemma traceInv_timerFires: "traceInv ids sv \<Longrightarrow> traceInv ids (timerFires i eng sv)"
proof (cases "i < length (streams sv) \<and> running (streams sv ! i)")
  case False
  assume "traceInv ids sv"
  with False show ?thesis by (auto simp: timerFires_def)
next
  case True
  assume ti: "traceInv ids sv"
  define s where "s = streams sv ! i"
  from True have m: "s \<in> set (streams sv)" by (simp add: s_def)
  obtain s' del where aw: "afterWait (isAborted (session s) sv) eng s = (s', del)"
    by (cases "afterWait (isAborted (session s) sv) eng s")
  from afterWait_effect [OF aw] have e: "sessionId s' = sessionId s" "session s' = session s"
    by simp_all
  define sv1 where "sv1 = sv\<lparr>streams := (streams sv)[i := s']\<rparr>"
  have g: "timerFires i eng sv = (if del then deleteSession (sessionId s) sv1 else sv1)"
    using True aw by (simp add: timerFires_def s_def [symmetric] sv1_def Let_def)
  show ?thesis
  proof (rule traceInv_shrink [OF ti])
    show "sessions (timerFires i eng sv) k = sessions sv k \<or> sessions (timerFires i eng sv) k = None" for k
      by (simp add: g deleteSession_fields sv1_def)
    fix s''
    assume "s'' \<in> set (streams (timerFires i eng sv))"
    then have "s'' \<in> set ((streams sv)[i := s'])"
      by (simp add: g deleteSession_fields sv1_def split: if_splits)
    then have "s'' = s' \<or> s'' \<in> set (streams sv)"
      using set_update_subset_insert [of "streams sv" i s'] by blast
    then show "(\<exists>s\<in>set (streams sv). sessionId s'' = sessionId s \<and> session s'' = session s)
        \<or> sessions sv (sessionId s'') = Some (session s'')"
      using m e by auto
  qed
qed

lemma traceInv_cancel: "traceInv ids sv \<Longrightarrow> traceInv ids (cancel i sv)"
proof (cases "i < length (streams sv)")
  case False
  assume "traceInv ids sv"
  with False show ?thesis by (auto simp: cancel_def)
next
  case True
  assume ti: "traceInv ids sv"
  define s where "s = streams sv ! i"
  from True have m: "s \<in> set (streams sv)" by (simp add: s_def)
  define sv1 where "sv1 = sv\<lparr>streams := (streams sv)[i := s\<lparr>closed := True\<rparr>]\<rparr>"
  have g: "cancel i sv = deleteSession (sessionId s) (abort (session s) sv1)"
    using True by (simp add: cancel_def s_def [symmetric] sv1_def Let_def)
  show ?thesis
  proof (rule traceInv_shrink [OF ti])
    show "sessions (cancel i sv) k = sessions sv k \<or> sessions (cancel i sv) k = None" for k
      by (simp add: g deleteSession_fields abort_fields sv1_def)
    fix s''
    assume "s'' \<in> set (streams (cancel i sv))"
    then have "s'' \<in> set ((streams sv)[i := s\<lparr>closed := True\<rparr>])"
      by (simp add: g deleteSession_fields abort_fields sv1_def)
    then have "s'' = s\<lparr>closed := True\<rparr> \<or> s'' \<in> set (streams sv)"
      using set_update_subset_insert [of "streams sv" i "s\<lparr>closed := True\<rparr>"] by blast
    then show "(\<exists>s\<in>set (streams sv). sessionId s'' = sessionId s \<and> session s'' = session s)
        \<or> sessions sv (sessionId s'') = Some (session s'')"
      using m by auto
  qed
qed

lemma traceInv_mono: "traceInv ids sv \<Longrightarrow> set ids \<subseteq> set ids' \<Longrightarrow> traceInv ids' sv"
  unfolding traceInv_def by blast

lemma traceInv_exec:
  "traceInv ids sv \<Longrightarrow> distinct (ids @ postIds evs) \<Longrightarrow> traceInv (ids @ postIds evs) (exec evs sv)"
proof (induction evs arbitrary: ids sv)
  case Nil
  then show ?case by simp
next
  case (Cons e es)
  show ?case
  proof (cases e)
    case (Post body uuid)
    from Cons.prems(2) Post have f: "uuid \<notin> set ids" and d: "distinct ((ids @ [uuid]) @ postIds es)"
      by simp_all
    from traceInv_POST [OF Cons.prems(1) f] have "traceInv (ids @ [uuid]) (step e sv)"
      by (simp add: Post)
    from Cons.IH [OF this d] show ?thesis by (simp add: Post)
  next
    case (Get q ff)
    with Cons.prems have "traceInv ids (step e sv)" "distinct (ids @ postIds es)"
      by (simp_all add: traceInv_GET)
    from Cons.IH [OF this] show ?thesis by (simp add: Get)
  next
    case (Delete q)
    with Cons.prems have "traceInv ids (step e sv)" "distinct (ids @ postIds es)"
      by (simp_all add: traceInv_DELETE)
    from Cons.IH [OF this] show ?thesis by (simp add: Delete)
  next
    case (Timer i eng)
    with Cons.prems have "traceInv ids (step e sv)" "distinct (ids @ postIds es)"
      by (simp_all add: traceInv_timerFires)
    from Cons.IH [OF this] show ?thesis by (simp add: Timer)
  next
    case (Cancel i)
    with Cons.prems have "traceInv ids (step e sv)" "distinct (ids @ postIds es)"
      by (simp_all add: traceInv_cancel)
    from Cons.IH [OF this] show ?thesis by (simp add: Cancel)
  qed
qed

lemma traceInv_reachable:
  "distinct (postIds evs) \<Longrightarrow> traceInv (postIds evs) (exec evs initServer)"
  using traceInv_exec [of "[]" initServer evs] by (simp add: traceInv_def initServer_def)

section \<open>Claim C1: cancelling twice\<close>

lemma step_sessions:
  "sessions (step e sv) k = Some a \<Longrightarrow> sessions sv k = Some a \<or> (\<exists>body. e = Post body k)"
proof (cases e)
  case (Post body uuid)
  assume a: "sessions (step e sv) k = Some a"
  obtain r sv' where p: "POST (Returns body) uuid sv = (r, sv')"
    by (cases "POST (Returns body) uuid sv")
  from POST_effect [OF p]
  have "sessions sv' = sessions sv \<or> sessions sv' = (sessions sv)(uuid \<mapsto> nextAddr sv)" by auto
  with a p Post show ?thesis by (auto split: if_splits)
next
  case (Get q ff)
  assume a: "sessions (step e sv) k = Some a"
  have "sessions (snd (GET q ff sv)) k = sessions sv k \<or> sessions (snd (GET q ff sv)) k = None"
    by (simp add: GET_def deleteSession_fields Let_def split: sum.splits prod.splits)
  with a Get show ?thesis by auto
next
  case (Delete q)
  assume a: "sessions (step e sv) k = Some a"
  have "sessions (snd (DELETE q sv)) k = sessions sv k \<or> sessions (snd (DELETE q sv)) k = None"
    by (simp add: DELETE_def deleteSession_fields abort_fields split: sum.splits prod.splits)
  with a Delete show ?thesis by auto
next
  case (Timer i eng)
  assume a: "sessions (step e sv) k = Some a"
  have "sessions (timerFires i eng sv) k = sessions sv k \<or> sessions (timerFires i eng sv) k = None"
    by (simp add: timerFires_def deleteSession_fields Let_def split: prod.splits)
  with a Timer show ?thesis by auto
next
  case (Cancel i)
  assume a: "sessions (step e sv) k = Some a"
  have "sessions (cancel i sv) k = sessions sv k \<or> sessions (cancel i sv) k = None"
    by (simp add: cancel_def deleteSession_fields abort_fields Let_def)
  with a Cancel show ?thesis by auto
qed

lemma postIds_Post: "Post body k \<in> set evs \<Longrightarrow> k \<in> set (postIds evs)"
  by (induction evs rule: postIds.induct) auto

lemma sessions_stay_absent:
  "sessions sv k = None \<Longrightarrow> k \<notin> set (postIds evs) \<Longrightarrow> sessions (exec evs sv) k = None"
proof (induction evs arbitrary: sv)
  case Nil
  then show ?case by simp
next
  case (Cons e es)
  have "sessions (step e sv) k = None"
  proof (rule ccontr)
    assume "sessions (step e sv) k \<noteq> None"
    then obtain a where "sessions (step e sv) k = Some a" by auto
    from step_sessions [OF this] Cons.prems(1) obtain body where "e = Post body k" by auto
    with Cons.prems(2) show False by simp
  qed
  moreover from Cons.prems(2) have "k \<notin> set (postIds es)" by (cases e) simp_all
  ultimately show ?case using Cons.IH by simp
qed

lemma DELETE_absent:
  "sessions sv sid = None \<Longrightarrow> DELETE (Some sid) sv = (UnknownSession, sv)"
  by (simp add: DELETE_def lookupSession_absent)

lemma DELETE_success:
  "fst (DELETE q sv) = SuccessResponse \<Longrightarrow>
     \<exists>sid. q = Some sid \<and> sessions (snd (DELETE q sv)) sid = None"
proof -
  assume a: "fst (DELETE q sv) = SuccessResponse"
  show ?thesis
  proof (cases "lookupSession q sv")
    case (Inl r)
    with lookupSession_Inl [OF Inl] a show ?thesis by (auto simp: DELETE_def UnknownSession_def)
  next
    case (Inr t)
    obtain sid b se where t: "t = (sid, b, se)" by (cases t)
    from Inr t have "q = Some sid" by (simp add: lookupSession_Inr)
    with Inr t show ?thesis by (simp add: DELETE_def deleteSession_fields)
  qed
qed

text \<open>
  Claim C1, as stated, has a second cancel on the same id succeed. DELETE answers
  \<open>Invalid session ID\<close> whenever the registry has no such key, and the first cancel
  removes the key: after POST, the first DELETE succeeds and the second one fails.
\<close>

theorem C1_counterexample:
  "fst (DELETE (Some ''s'') (exec [Post sampleBody ''s''] initServer)) = SuccessResponse
   \<and> fst (DELETE (Some ''s'') (exec [Post sampleBody ''s'', Delete (Some ''s'')] initServer))
       = ErrorResponse ''Invalid session ID'' 400"
  by code_simp

text \<open>
  Claim C1, amended: cancel is not idempotent. Once a cancel has succeeded on a session
  id, every later cancel on that id fails with \<open>UnknownSession\<close>, whatever happens in
  between, as long as no session is created under that id again; and for every id
  under which no session was ever created, cancel fails with \<open>UnknownSession\<close> on every
  call and changes nothing.
\<close>

theorem C1_cancel_twice:
  "(fst (DELETE q sv) = SuccessResponse \<longrightarrow>
      (\<forall>evs. (\<forall>sid. q = Some sid \<longrightarrow> sid \<notin> set (postIds evs)) \<longrightarrow>
         DELETE q (exec evs (snd (DELETE q sv))) = (UnknownSession, exec evs (snd (DELETE q sv)))))
   \<and> (\<forall>evs sid. sid \<notin> set (postIds evs) \<longrightarrow>
         DELETE (Some sid) (exec evs initServer) = (UnknownSession, exec evs initServer))"
proof (intro conjI impI allI)
  fix evs
  assume a: "fst (DELETE q sv) = SuccessResponse"
    and f: "\<forall>sid. q = Some sid \<longrightarrow> sid \<notin> set (postIds evs)"
  from DELETE_success [OF a] obtain sid where q: "q = Some sid"
    and n: "sessions (snd (DELETE q sv)) sid = None" by blast
  from f q have "sid \<notin> set (postIds evs)" by blast
  from sessions_stay_absent [OF n this] q
  show "DELETE q (exec evs (snd (DELETE q sv))) = (UnknownSession, exec evs (snd (DELETE q sv)))"
    by (simp add: DELETE_absent)
next
  fix evs sid
  assume "sid \<notin> set (postIds evs)"
  moreover have "sessions initServer sid = None" by (simp add: initServer_def)
  ultimately have "sessions (exec evs initServer) sid = None" by (intro sessions_stay_absent)
  then show "DELETE (Some sid) (exec evs initServer) = (UnknownSession, exec evs initServer)"
    by (rule DELETE_absent)
qed

text \<open>
  The amended claim C1 on the server: after POST the cancel of \<open>s\<close> succeeds, a second
  cancel right after it fails, and so does one after a GET in between; the id \<open>t\<close>, never
  created, cannot be cancelled.
\<close>

theorem C1_cancel_twice_witness:
  "fst (DELETE (Some ''s'') (exec [Post sampleBody ''s''] initServer)) = SuccessResponse
   \<and> fst (DELETE (Some ''s'') (exec [] (snd (DELETE (Some ''s'') (exec [Post sampleBody ''s''] initServer)))))
       = UnknownSession
   \<and> fst (DELETE (Some ''s'')
        (exec [Get (Some ''s'') (Returns [])] (snd (DELETE (Some ''s'') (exec [Post sampleBody ''s''] initServer)))))
       = UnknownSession
   \<and> fst (DELETE (Some ''t'') (exec [Post sampleBody ''s'', Delete (Some ''t'')] initServer))
       = UnknownSession"
proof -
  let ?sv = "exec [Post sampleBody ''s''] initServer"
  have a: "fst (DELETE (Some ''s'') ?sv) = SuccessResponse" by code_simp
  note t = C1_cancel_twice [of "Some ''s''" ?sv]
  note t1 = t [THEN conjunct1, rule_format, OF a]
  have "DELETE (Some ''s'') (exec [] (snd (DELETE (Some ''s'') ?sv)))
      = (UnknownSession, exec [] (snd (DELETE (Some ''s'') ?sv)))"
    by (rule t1) simp
  then have b: "fst (DELETE (Some ''s'') (exec [] (snd (DELETE (Some ''s'') ?sv)))) = UnknownSession"
    by (rule arg_cong [where f = fst, THEN trans]) simp
  have "DELETE (Some ''s'') (exec [Get (Some ''s'') (Returns [])] (snd (DELETE (Some ''s'') ?sv)))
      = (UnknownSession, exec [Get (Some ''s'') (Returns [])] (snd (DELETE (Some ''s'') ?sv)))"
    by (rule t1) simp
  then have c: "fst (DELETE (Some ''s'') (exec [Get (Some ''s'') (Returns [])] (snd (DELETE (Some ''s'') ?sv))))
      = UnknownSession"
    by (rule arg_cong [where f = fst, THEN trans]) simp
  have "''t'' \<notin> set (postIds [Post sampleBody ''s'', Delete (Some ''t'')])" by simp
  from t [THEN conjunct2, rule_format, OF this]
  have d: "fst (DELETE (Some ''t'') (exec [Post sampleBody ''s'', Delete (Some ''t'')] initServer))
      = UnknownSession"
    by (rule arg_cong [where f = fst, THEN trans]) simp
  from a b c d show ?thesis by (intro conjI)
qed

section \<open>Streams and the registry entry of their session\<close>

lemma start_del: "start ab ff s = (s', del) \<Longrightarrow> del \<Longrightarrow> \<not> running s'"
  by (cases ff) (auto simp: start_def Let_def dest: finallyBlock_effect split: if_splits)

lemma afterWait_del: "afterWait ab eng s = (s', del) \<Longrightarrow> del \<Longrightarrow> \<not> running s'"
proof -
  assume a: "afterWait ab eng s = (s', del)" and d: del
  obtain s1 fl where l: "loopBody ab eng s = (s1, fl)" by (cases "loopBody ab eng s")
  show ?thesis
  proof (cases "fl = Fallthrough \<and> \<not> ab")
    case True
    with a l have "del = False" by (simp add: afterWait_def)
    with d show ?thesis by simp
  next
    case False
    with a l have "finallyBlock s1 = (s', del)" by (cases fl) (simp_all add: afterWait_def)
    from finallyBlock_effect [OF this] show ?thesis by simp
  qed
qed

lemma isAborted_abort_same: "heap sv a = Some se \<Longrightarrow> isAborted a (abort a sv)"
  by (simp add: isAborted_def abort_def)

lemma isAborted_abort_mono: "isAborted b sv \<Longrightarrow> isAborted b (abort a sv)"
  by (auto simp: isAborted_def abort_def split: option.splits)

lemma isAborted_deleteSession: "isAborted b (deleteSession sid sv) = isAborted b sv"
  by (simp add: isAborted_def deleteSession_def)

lemma isAborted_heap: "heap sv' = heap sv \<Longrightarrow> isAborted b sv' = isAborted b sv"
  by (simp add: isAborted_def)

lemma set_update_keeps: "t \<in> set xs \<Longrightarrow> t \<in> set (xs[i := v]) \<or> (i < length xs \<and> t = xs ! i)"
proof -
  assume "t \<in> set xs"
  then obtain j where j: "j < length xs" "xs ! j = t" by (auto simp: in_set_conv_nth)
  show ?thesis
  proof (cases "j = i")
    case True
    with j show ?thesis by simp
  next
    case False
    with j have "(xs[i := v]) ! j = t" "j < length (xs[i := v])" by simp_all
    then have "t \<in> set (xs[i := v])" by (metis nth_mem)
    then show ?thesis by simp
  qed
qed

lemma streamsAttached_init: "streamsAttached initServer"
  by (simp add: streamsAttached_def initServer_def)

lemma streamsAttached_update:
  assumes at: "streamsAttached sv"
    and st: "\<And>u'. u' \<in> set (streams sv') \<Longrightarrow>
        (\<exists>u\<in>set (streams sv). sessionId u' = sessionId u \<and> session u' = session u)
        \<or> (sessionId u' \<noteq> [] \<and>
            (sessions sv' (sessionId u') = Some (session u') \<or> isAborted (session u') sv' \<or>
             (\<exists>t\<in>set (streams sv'). session t = session u' \<and> \<not> running t)))"
    and ab: "\<And>u. u \<in> set (streams sv) \<Longrightarrow> isAborted (session u) sv \<Longrightarrow> isAborted (session u) sv'"
    and en: "\<And>t. t \<in> set (streams sv) \<Longrightarrow> \<not> running t \<Longrightarrow>
        \<exists>t'\<in>set (streams sv'). session t' = session t \<and> \<not> running t'"
    and rg: "\<And>u. u \<in> set (streams sv) \<Longrightarrow> sessions sv (sessionId u) = Some (session u) \<Longrightarrow>
        sessions sv' (sessionId u) = Some (session u) \<or> isAborted (session u) sv' \<or>
        (\<exists>t'\<in>set (streams sv'). session t' = session u \<and> \<not> running t')"
  shows "streamsAttached sv'"
  unfolding streamsAttached_def
proof
  fix u'
  assume m: "u' \<in> set (streams sv')"
  let ?goal = "sessionId u' \<noteq> [] \<and>
        (sessions sv' (sessionId u') = Some (session u') \<or> isAborted (session u') sv' \<or>
         (\<exists>t\<in>set (streams sv'). session t = session u' \<and> \<not> running t))"
  from st [OF m] show ?goal
  proof
    assume "\<exists>u\<in>set (streams sv). sessionId u' = sessionId u \<and> session u' = session u"
    then obtain u where u: "u \<in> set (streams sv)" and e: "sessionId u' = sessionId u" "session u' = session u"
      by blast
    from at u have n: "sessionId u \<noteq> []"
      and c: "sessions sv (sessionId u) = Some (session u) \<or> isAborted (session u) sv \<or>
         (\<exists>t\<in>set (streams sv). session t = session u \<and> \<not> running t)"
      unfolding streamsAttached_def by blast+
    from c have "sessions sv' (sessionId u) = Some (session u) \<or> isAborted (session u) sv' \<or>
        (\<exists>t'\<in>set (streams sv'). session t' = session u \<and> \<not> running t')"
    proof (elim disjE)
      assume "sessions sv (sessionId u) = Some (session u)"
      from rg [OF u this] show ?thesis .
    next
      assume "isAborted (session u) sv"
      from ab [OF u this] show ?thesis by simp
    next
      assume "\<exists>t\<in>set (streams sv). session t = session u \<and> \<not> running t"
      then obtain t where t: "t \<in> set (streams sv)" "session t = session u" "\<not> running t" by blast
      from en [OF t(1) t(3)] t(2) show ?thesis by auto
    qed
    with n e show ?goal by simp
  next
    assume ?goal
    then show ?goal .
  qed
qed

lemma streamsAttached_POST:
  assumes ti: "traceInv ids sv" and w: "wellFormed sv" and at: "streamsAttached sv"
    and f: "uuid \<notin> set ids"
  shows "streamsAttached (snd (POST request uuid sv))"
proof -
  obtain r sv' where p: "POST request uuid sv = (r, sv')" by (cases "POST request uuid sv")
  from POST_effect [OF p]
  show ?thesis
  proof
    assume "sv' = sv \<and> (\<exists>msg code. r = ErrorResponse msg code)"
    with at p show ?thesis by simp
  next
    assume a: "r = SessionCreated uuid \<and> streams sv' = streams sv
        \<and> sessions sv' = (sessions sv)(uuid \<mapsto> nextAddr sv)
        \<and> nextAddr sv' = Suc (nextAddr sv)
        \<and> (\<exists>se. heap sv' = (heap sv)(nextAddr sv \<mapsto> se) \<and> \<not> aborted se)"
    then obtain se where h: "heap sv' = (heap sv)(nextAddr sv \<mapsto> se)" by blast
    from w have sb: "streamsBounded sv" by (simp add: wellFormed_def)
    have "streamsAttached sv'"
    proof (rule streamsAttached_update [OF at])
      fix u'
      assume "u' \<in> set (streams sv')"
      with a have "u' \<in> set (streams sv)" by simp
      then show "(\<exists>u\<in>set (streams sv). sessionId u' = sessionId u \<and> session u' = session u)
        \<or> (sessionId u' \<noteq> [] \<and>
            (sessions sv' (sessionId u') = Some (session u') \<or> isAborted (session u') sv' \<or>
             (\<exists>t\<in>set (streams sv'). session t = session u' \<and> \<not> running t)))"
        by blast
    next
      fix u
      assume u: "u \<in> set (streams sv)" and i: "isAborted (session u) sv"
      from sb u have "session u \<noteq> nextAddr sv" unfolding streamsBounded_def by fastforce
      with i h show "isAborted (session u) sv'" by (simp add: isAborted_def)
    next
      fix t
      assume "t \<in> set (streams sv)" "\<not> running t"
      with a show "\<exists>t'\<in>set (streams sv'). session t' = session t \<and> \<not> running t'" by auto
    next
      fix u
      assume u: "u \<in> set (streams sv)" and "sessions sv (sessionId u) = Some (session u)"
      moreover from ti u have "sessionId u \<in> set ids" unfolding traceInv_def by blast
      with f have "sessionId u \<noteq> uuid" by blast
      ultimately have "sessions sv' (sessionId u) = Some (session u)" using a by simp
      then show "sessions sv' (sessionId u) = Some (session u) \<or> isAborted (session u) sv' \<or>
        (\<exists>t'\<in>set (streams sv'). session t' = session u \<and> \<not> running t')" by simp
    qed
    with p show ?thesis by simp
  qed
qed


lemma streamsAttached_DELETE:
  assumes ti: "traceInv ids sv" and w: "wellFormed sv" and at: "streamsAttached sv"
  shows "streamsAttached (snd (DELETE q sv))"
proof (cases "lookupSession q sv")
  case (Inl r)
  with at show ?thesis by (simp add: DELETE_def)
next
  case (Inr t)
  obtain sid a se where t: "t = (sid, a, se)" by (cases t)
  let ?sv = "deleteSession sid (abort a sv)"
  from Inr t have l: "sessions sv sid = Some a" "heap sv a = Some se"
    by (simp_all add: lookupSession_Inr)
  have "streamsAttached ?sv"
  proof (rule streamsAttached_update [OF at])
    fix u'
    assume "u' \<in> set (streams ?sv)"
    then have "u' \<in> set (streams sv)" by (simp add: deleteSession_fields abort_fields)
    then show "(\<exists>u\<in>set (streams sv). sessionId u' = sessionId u \<and> session u' = session u)
        \<or> (sessionId u' \<noteq> [] \<and>
            (sessions ?sv (sessionId u') = Some (session u') \<or> isAborted (session u') ?sv \<or>
             (\<exists>t\<in>set (streams ?sv). session t = session u' \<and> \<not> running t)))"
      by blast
  next
    fix u
    assume "isAborted (session u) sv"
    then show "isAborted (session u) ?sv"
      by (simp add: isAborted_deleteSession isAborted_abort_mono)
  next
    fix t
    assume "t \<in> set (streams sv)" "\<not> running t"
    then show "\<exists>t'\<in>set (streams ?sv). session t' = session t \<and> \<not> running t'"
      by (auto simp: deleteSession_fields abort_fields)
  next
    fix u
    assume u: "u \<in> set (streams sv)" and r: "sessions sv (sessionId u) = Some (session u)"
    show "sessions ?sv (sessionId u) = Some (session u) \<or> isAborted (session u) ?sv \<or>
        (\<exists>t'\<in>set (streams ?sv). session t' = session u \<and> \<not> running t')"
    proof (cases "sessionId u = sid")
      case True
      with r l have "session u = a" by simp
      with l(2) have "isAborted (session u) ?sv"
        by (simp add: isAborted_deleteSession isAborted_abort_same)
      then show ?thesis by simp
    next
      case False
      with r have "sessions ?sv (sessionId u) = Some (session u)"
        by (simp add: deleteSession_fields abort_fields)
      then show ?thesis by simp
    qed
  qed
  with Inr t show ?thesis by (simp add: DELETE_def)
qed

lemma streamsAttached_GET:
  assumes ti: "traceInv ids sv" and w: "wellFormed sv" and at: "streamsAttached sv"
  shows "streamsAttached (snd (GET q ff sv))"
proof (cases "lookupSession q sv")
  case (Inl r)
  with at show ?thesis by (simp add: GET_def)
next
  case (Inr t)
  obtain sid a se where t: "t = (sid, a, se)" by (cases t)
  from Inr t have l: "sid \<noteq> []" "sessions sv sid = Some a" "heap sv a = Some se"
    by (simp_all add: lookupSession_Inr)
  define s0 where "s0 = \<lparr>sessionId = sid, session = a, flammableCells = [], enqueued = [],
                     closed = False, running = False\<rparr>"
  obtain s del where sd: "start (aborted se) ff s0 = (s, del)" by (cases "start (aborted se) ff s0")
  define sv1 where "sv1 = sv\<lparr>streams := streams sv @ [s]\<rparr>"
  let ?sv = "if del then deleteSession sid sv1 else sv1"
  have g: "snd (GET q ff sv) = ?sv"
    using Inr t sd by (simp add: GET_def s0_def sv1_def Let_def)
  from start_effect [OF sd] have e: "sessionId s = sid" "session s = a"
    and r: "\<not> running s \<longrightarrow> del"
    by (simp_all add: s0_def)
  have st: "streams ?sv = streams sv @ [s]" by (simp add: deleteSession_fields sv1_def)
  have hp: "heap ?sv = heap sv" by (simp add: deleteSession_fields sv1_def)
  have sn: "s \<in> set (streams ?sv)" by (simp add: st)
  have ended: "del \<Longrightarrow> \<exists>t'\<in>set (streams ?sv). session t' = a \<and> \<not> running t'"
    using start_del [OF sd] e sn by blast
  have "streamsAttached ?sv"
  proof (rule streamsAttached_update [OF at])
    fix u'
    assume "u' \<in> set (streams ?sv)"
    then have "u' = s \<or> u' \<in> set (streams sv)" by (auto simp: st)
    then show "(\<exists>u\<in>set (streams sv). sessionId u' = sessionId u \<and> session u' = session u)
        \<or> (sessionId u' \<noteq> [] \<and>
            (sessions ?sv (sessionId u') = Some (session u') \<or> isAborted (session u') ?sv \<or>
             (\<exists>t\<in>set (streams ?sv). session t = session u' \<and> \<not> running t)))"
    proof
      assume u: "u' = s"
      show ?thesis
      proof (cases del)
        case True
        from ended [OF True] have "\<exists>t\<in>set (streams ?sv). session t = session u' \<and> \<not> running t"
          by (simp add: u e)
        with l(1) show ?thesis by (simp add: u e)
      next
        case False
        with l have "sessionId u' \<noteq> [] \<and> sessions ?sv (sessionId u') = Some (session u')"
          by (simp add: u e sv1_def)
        then show ?thesis by blast
      qed
    next
      assume "u' \<in> set (streams sv)"
      then show ?thesis by blast
    qed
  next
    fix u
    assume "isAborted (session u) sv"
    then show "isAborted (session u) ?sv" by (simp add: isAborted_heap [OF hp])
  next
    fix t
    assume "t \<in> set (streams sv)" "\<not> running t"
    then show "\<exists>t'\<in>set (streams ?sv). session t' = session t \<and> \<not> running t'"
      by (auto simp: st)
  next
    fix u
    assume u: "u \<in> set (streams sv)" and rg: "sessions sv (sessionId u) = Some (session u)"
    show "sessions ?sv (sessionId u) = Some (session u) \<or> isAborted (session u) ?sv \<or>
        (\<exists>t'\<in>set (streams ?sv). session t' = session u \<and> \<not> running t')"
    proof (cases "del \<and> sessionId u = sid")
      case True
      with rg l have "session u = a" by simp
      with ended True show ?thesis by simp
    next
      case False
      with rg have "sessions ?sv (sessionId u) = Some (session u)"
        by (auto simp: deleteSession_fields sv1_def)
      then show ?thesis by simp
    qed
  qed
  with g show ?thesis by simp
qed

lemma streamsAttached_timerFires:
  assumes ti: "traceInv ids sv" and w: "wellFormed sv" and at: "streamsAttached sv"
  shows "streamsAttached (timerFires i eng sv)"
proof (cases "i < length (streams sv) \<and> running (streams sv ! i)")
  case False
  with at show ?thesis by (auto simp: timerFires_def)
next
  case True
  define s where "s = streams sv ! i"
  from True have m: "s \<in> set (streams sv)" and rs: "running s" by (simp_all add: s_def)
  obtain s' del where aw: "afterWait (isAborted (session s) sv) eng s = (s', del)"
    by (cases "afterWait (isAborted (session s) sv) eng s")
  define sv1 where "sv1 = sv\<lparr>streams := (streams sv)[i := s']\<rparr>"
  let ?sv = "if del then deleteSession (sessionId s) sv1 else sv1"
  have g: "timerFires i eng sv = ?sv"
    using True aw by (simp add: timerFires_def s_def [symmetric] sv1_def Let_def)
  from afterWait_effect [OF aw] have e: "sessionId s' = sessionId s" "session s' = session s"
    by simp_all
  have st: "streams ?sv = (streams sv)[i := s']" by (simp add: deleteSession_fields sv1_def)
  have hp: "heap ?sv = heap sv" by (simp add: deleteSession_fields sv1_def)
  from True have sn: "s' \<in> set (streams ?sv)" by (simp add: st set_update_memI)
  have "streamsAttached ?sv"
  proof (rule streamsAttached_update [OF at])
    fix u'
    assume "u' \<in> set (streams ?sv)"
    then have "u' \<in> set ((streams sv)[i := s'])" by (simp only: st)
    then have "u' = s' \<or> u' \<in> set (streams sv)"
      using set_update_subset_insert [of "streams sv" i s'] by blast
    with m e have "\<exists>u\<in>set (streams sv). sessionId u' = sessionId u \<and> session u' = session u"
      by auto
    then show "(\<exists>u\<in>set (streams sv). sessionId u' = sessionId u \<and> session u' = session u)
        \<or> (sessionId u' \<noteq> [] \<and>
            (sessions ?sv (sessionId u') = Some (session u') \<or> isAborted (session u') ?sv \<or>
             (\<exists>t\<in>set (streams ?sv). session t = session u' \<and> \<not> running t)))"
      by (rule disjI1)
  next
    fix u
    assume "isAborted (session u) sv"
    then show "isAborted (session u) ?sv" by (simp add: isAborted_heap [OF hp])
  next
    fix t
    assume t: "t \<in> set (streams sv)" "\<not> running t"
    from set_update_keeps [OF t(1), of i s'] t(2) rs
    have "t \<in> set ((streams sv)[i := s'])" by (auto simp: s_def)
    with t(2) show "\<exists>t'\<in>set (streams ?sv). session t' = session t \<and> \<not> running t'"
      unfolding st by blast
  next
    fix u
    assume u: "u \<in> set (streams sv)" and rg: "sessions sv (sessionId u) = Some (session u)"
    show "sessions ?sv (sessionId u) = Some (session u) \<or> isAborted (session u) ?sv \<or>
        (\<exists>t'\<in>set (streams ?sv). session t' = session u \<and> \<not> running t')"
    proof (cases "del \<and> sessionId u = sessionId s")
      case True
      with rg have "sessions sv (sessionId s) = Some (session u)" by simp
      with ti m have "session u = session s" unfolding traceInv_def by blast
      moreover from True afterWait_del [OF aw] have "\<not> running s'" by simp
      ultimately have "\<exists>t'\<in>set (streams ?sv). session t' = session u \<and> \<not> running t'"
        using sn e by auto
      then show ?thesis by simp
    next
      case False
      with rg have "sessions ?sv (sessionId u) = Some (session u)"
        by (auto simp: deleteSession_fields sv1_def)
      then show ?thesis by simp
    qed
  qed
  with g show ?thesis by simp
qed

lemma streamsAttached_cancel:
  assumes ti: "traceInv ids sv" and w: "wellFormed sv" and at: "streamsAttached sv"
  shows "streamsAttached (cancel i sv)"
proof (cases "i < length (streams sv)")
  case False
  with at show ?thesis by (simp add: cancel_def)
next
  case True
  define s where "s = streams sv ! i"
  from True have m: "s \<in> set (streams sv)" by (simp add: s_def)
  define sv1 where "sv1 = sv\<lparr>streams := (streams sv)[i := s\<lparr>closed := True\<rparr>]\<rparr>"
  let ?sv = "deleteSession (sessionId s) (abort (session s) sv1)"
  have g: "cancel i sv = ?sv"
    using True by (simp add: cancel_def s_def [symmetric] sv1_def Let_def)
  have st: "streams ?sv = (streams sv)[i := s\<lparr>closed := True\<rparr>]"
    by (simp add: deleteSession_fields abort_fields sv1_def)
  have ab: "isAborted b ?sv" if "isAborted b sv" for b
  proof -
    from that have "isAborted b sv1" by (simp add: isAborted_def sv1_def)
    then show ?thesis by (simp add: isAborted_deleteSession isAborted_abort_mono)
  qed
  from w have rl: "regLive sv" by (simp add: wellFormed_def)
  have "streamsAttached ?sv"
  proof (rule streamsAttached_update [OF at])
    fix u'
    assume "u' \<in> set (streams ?sv)"
    then have "u' \<in> set ((streams sv)[i := s\<lparr>closed := True\<rparr>])" by (simp only: st)
    then have "u' = s\<lparr>closed := True\<rparr> \<or> u' \<in> set (streams sv)"
      using set_update_subset_insert [of "streams sv" i "s\<lparr>closed := True\<rparr>"] by blast
    with m have "\<exists>u\<in>set (streams sv). sessionId u' = sessionId u \<and> session u' = session u"
      by auto
    then show "(\<exists>u\<in>set (streams sv). sessionId u' = sessionId u \<and> session u' = session u)
        \<or> (sessionId u' \<noteq> [] \<and>
            (sessions ?sv (sessionId u') = Some (session u') \<or> isAborted (session u') ?sv \<or>
             (\<exists>t\<in>set (streams ?sv). session t = session u' \<and> \<not> running t)))"
      by (rule disjI1)
  next
    fix u
    assume "isAborted (session u) sv"
    then show "isAborted (session u) ?sv" by (rule ab)
  next
    fix t
    assume t: "t \<in> set (streams sv)" "\<not> running t"
    from set_update_keeps [OF t(1), of i "s\<lparr>closed := True\<rparr>"]
    show "\<exists>t'\<in>set (streams ?sv). session t' = session t \<and> \<not> running t'"
    proof
      assume "t \<in> set ((streams sv)[i := s\<lparr>closed := True\<rparr>])"
      with t(2) show ?thesis unfolding st by blast
    next
      assume "i < length (streams sv) \<and> t = streams sv ! i"
      then have "t = s" by (simp add: s_def)
      moreover from True have "s\<lparr>closed := True\<rparr> \<in> set ((streams sv)[i := s\<lparr>closed := True\<rparr>])"
        by (simp add: set_update_memI)
      ultimately have "s\<lparr>closed := True\<rparr> \<in> set (streams ?sv)
          \<and> session (s\<lparr>closed := True\<rparr>) = session t \<and> \<not> running (s\<lparr>closed := True\<rparr>)"
        using t(2) by (simp add: st)
      then show ?thesis by blast
    qed
  next
    fix u
    assume u: "u \<in> set (streams sv)" and rg: "sessions sv (sessionId u) = Some (session u)"
    show "sessions ?sv (sessionId u) = Some (session u) \<or> isAborted (session u) ?sv \<or>
        (\<exists>t'\<in>set (streams ?sv). session t' = session u \<and> \<not> running t')"
    proof (cases "sessionId u = sessionId s")
      case True
      with rg have r: "sessions sv (sessionId s) = Some (session u)" by simp
      with ti m have eq: "session u = session s" unfolding traceInv_def by blast
      from rl r obtain se where "heap sv (session u) = Some se" unfolding regLive_def by blast
      then have "heap sv1 (session s) = Some se" by (simp add: eq sv1_def)
      then have "isAborted (session s) ?sv"
        by (simp add: isAborted_deleteSession isAborted_abort_same)
      then show ?thesis by (simp add: eq)
    next
      case False
      with rg have "sessions ?sv (sessionId u) = Some (session u)"
        by (simp add: deleteSession_fields abort_fields sv1_def)
      then show ?thesis by simp
    qed
  qed
  with g show ?thesis by simp
qed

lemma streamsAttached_exec:
  "traceInv ids sv \<Longrightarrow> wellFormed sv \<Longrightarrow> streamsAttached sv \<Longrightarrow> distinct (ids @ postIds evs) \<Longrightarrow>
     streamsAttached (exec evs sv)"
proof (induction evs arbitrary: ids sv)
  case Nil
  then show ?case by simp
next
  case (Cons e es)
  note ti = Cons.prems(1) and w = Cons.prems(2) and at = Cons.prems(3) and d = Cons.prems(4)
  from d have d1: "distinct (ids @ postIds [e])" by (cases e) simp_all
  from traceInv_exec [OF ti d1] have ti': "traceInv (ids @ postIds [e]) (step e sv)" by simp
  from w have w': "wellFormed (step e sv)" by (rule wellFormed_step)
  from d have d': "distinct ((ids @ postIds [e]) @ postIds es)" by (cases e) simp_all
  have at': "streamsAttached (step e sv)"
  proof (cases e)
    case (Post body uuid)
    with d have "uuid \<notin> set ids" by simp
    from streamsAttached_POST [OF ti w at this] show ?thesis by (simp add: Post)
  next
    case (Get q ff)
    with streamsAttached_GET [OF ti w at] show ?thesis by simp
  next
    case (Delete q)
    with streamsAttached_DELETE [OF ti w at] show ?thesis by simp
  next
    case (Timer i eng)
    with streamsAttached_timerFires [OF ti w at] show ?thesis by simp
  next
    case (Cancel i)
    with streamsAttached_cancel [OF ti w at] show ?thesis by simp
  qed
  from Cons.IH [OF ti' w' at' d'] show ?case by simp
qed

lemma streamsAttached_reachable:
  "distinct (postIds evs) \<Longrightarrow> streamsAttached (exec evs initServer)"
proof -
  assume d: "distinct (postIds evs)"
  have "traceInv [] initServer" by (simp add: traceInv_def initServer_def)
  from streamsAttached_exec [OF this wellFormed_init streamsAttached_init] d
  show ?thesis by simp
qed

section \<open>Claim C3: a second attach\<close>

lemma GET_absent:
  "sessions sv sid = None \<Longrightarrow> GET (Some sid) ff sv = (UnknownSession, sv)"
  by (simp add: GET_def lookupSession_absent)

lemma GET_running:
  assumes "fst (GET q ff sv) = StreamResponse i" "running (streams (snd (GET q ff sv)) ! i)"
  shows "fst (GET q ff' (snd (GET q ff sv))) = StreamResponse (Suc (length (streams sv)))"
proof (cases "lookupSession q sv")
  case (Inl r)
  with lookupSession_Inl [OF Inl] assms(1) show ?thesis by (auto simp: GET_def UnknownSession_def)
next
  case (Inr t)
  obtain sid a se where t: "t = (sid, a, se)" by (cases t)
  define s0 where "s0 = \<lparr>sessionId = sid, session = a, flammableCells = [], enqueued = [],
                     closed = False, running = False\<rparr>"
  obtain s del where sd: "start (aborted se) ff s0 = (s, del)" by (cases "start (aborted se) ff s0")
  define sv1 where "sv1 = sv\<lparr>streams := streams sv @ [s]\<rparr>"
  have g: "GET q ff sv = (StreamResponse (length (streams sv)), if del then deleteSession sid sv1 else sv1)"
    using Inr t sd by (simp add: GET_def s0_def sv1_def Let_def)
  with assms(1) have i: "i = length (streams sv)" by simp
  have "streams (snd (GET q ff sv)) ! i = s"
    by (simp add: g i deleteSession_fields sv1_def)
  with assms(2) have r: "running s" by simp
  have "\<not> del"
  proof
    assume del
    with sd have "\<not> running s"
      by (cases ff) (auto simp: start_def Let_def dest: finallyBlock_effect split: if_splits)
    with r show False by simp
  qed
  with g have e: "snd (GET q ff sv) = sv1" by simp
  from Inr t have "lookupSession q sv1 = Inr (sid, a, se)"
    by (simp add: lookupSession_Inr sv1_def)
  then have "fst (GET q ff' sv1) = StreamResponse (length (streams sv1))"
    by (simp add: GET_def Let_def split: prod.splits)
  moreover have "length (streams sv1) = Suc (length (streams sv))" by (simp add: sv1_def)
  ultimately show ?thesis by (simp only: e)
qed

lemma ended_stream_unregistered:
  assumes d: "distinct (postIds evs)"
    and m: "s \<in> set (streams (exec evs initServer))"
    and c: "closed s \<or> \<not> running s"
  shows "sessions (exec evs initServer) (sessionId s) = None"
proof (rule ccontr)
  let ?sv = "exec evs initServer"
  assume "sessions ?sv (sessionId s) \<noteq> None"
  then obtain a where a: "sessions ?sv (sessionId s) = Some a" by auto
  from traceInv_reachable [OF d] m a have "a = session s" unfolding traceInv_def by blast
  moreover have "streamsReleased ?sv" using wellFormed_reachable [of evs] by (simp add: wellFormed_def)
  with m c have "sessions ?sv (sessionId s) \<noteq> Some (session s)" unfolding streamsReleased_def by blast
  ultimately show False using a by simp
qed

lemma attach_succeeds:
  assumes d: "distinct (postIds evs)"
    and m: "s \<in> set (streams (exec evs initServer))"
    and a: "\<not> isAborted (session s) (exec evs initServer)"
    and r: "\<forall>t\<in>set (streams (exec evs initServer)). session t = session s \<longrightarrow> running t"
  shows "fst (GET (Some (sessionId s)) ff (exec evs initServer))
      = StreamResponse (length (streams (exec evs initServer)))"
proof -
  let ?sv = "exec evs initServer"
  from streamsAttached_reachable [OF d] m a r
  have n: "sessionId s \<noteq> []" and k: "sessions ?sv (sessionId s) = Some (session s)"
    unfolding streamsAttached_def by blast+
  have "regLive ?sv" using wellFormed_reachable [of evs] by (simp add: wellFormed_def)
  with k obtain se where "heap ?sv (session s) = Some se" unfolding regLive_def by blast
  with n k have "lookupSession (Some (sessionId s)) ?sv = Inr (sessionId s, session s, se)"
    by (simp add: lookupSession_Inr)
  then show ?thesis by (simp add: GET_def Let_def split: prod.splits)
qed

lemma attach_fails:
  assumes d: "distinct (postIds evs)"
    and m: "s \<in> set (streams (exec evs initServer))"
    and c: "isAborted (session s) (exec evs initServer)
        \<or> (\<exists>t\<in>set (streams (exec evs initServer)). session t = session s \<and> \<not> running t)"
  shows "GET (Some (sessionId s)) ff (exec evs initServer) = (UnknownSession, exec evs initServer)"
proof -
  let ?sv = "exec evs initServer"
  have w: "wellFormed ?sv" by (rule wellFormed_reachable)
  have "sessions ?sv (sessionId s) = None"
  proof (rule ccontr)
    assume "sessions ?sv (sessionId s) \<noteq> None"
    then obtain a where a: "sessions ?sv (sessionId s) = Some a" by auto
    from traceInv_reachable [OF d] m a have e: "a = session s" unfolding traceInv_def by blast
    from w have "regLive ?sv" by (simp add: wellFormed_def)
    with a e have "\<not> isAborted (session s) ?sv" unfolding regLive_def isAborted_def by fastforce
    with c obtain t where t: "t \<in> set (streams ?sv)" "session t = session s" "\<not> running t" by blast
    from w have "streamsReleased ?sv" by (simp add: wellFormed_def)
    with t have "sessions ?sv (sessionId s) \<noteq> Some (session s)" unfolding streamsReleased_def by metis
    with a e show False by simp
  qed
  then show ?thesis by (rule GET_absent)
qed

text \<open>
  Claim C3, as stated, has every second attach on an id fail, also while the first
  stream is running. GET only asks whether the registry has the key, and the key stays
  until a stream ends or a cancel arrives: after POST and a first GET whose loop is
  waiting, a second GET on the same id is answered with a second stream.
\<close>

theorem C3_counterexample:
  "fst (GET (Some ''s'') (Returns [''0,0'']) (exec [Post sampleBody ''s''] initServer)) = StreamResponse 0
   \<and> running (streams (exec [Post sampleBody ''s'', Get (Some ''s'') (Returns [''0,0''])] initServer) ! 0)
   \<and> fst (GET (Some ''s'') (Returns [''0,0''])
        (exec [Post sampleBody ''s'', Get (Some ''s'') (Returns [''0,0''])] initServer))
      = StreamResponse 1"
  by code_simp

text \<open>
  Claim C3, amended: the code does not limit a session to one stream. Along every
  sequence of events in which \<open>uuidv4()\<close> repeats no id, an attach on the id of a stream
  succeeds, and gets a stream of its own, exactly as long as the session of that stream
  has not been aborted (by a DELETE or by the cancel of a consumer) and every stream
  attached to that session is still waiting in its loop, however many times the timers
  have fired; otherwise it fails with \<open>UnknownSession\<close>. So once a stream has ended or
  has been cancelled by its consumer, every attach on the id of that stream fails; so
  does every attach on an id after a DELETE on it has succeeded, as long as the id is
  not created again; and an attach right after an attach whose loop is waiting
  succeeds in every state of the server.
\<close>

theorem C3_second_attach:
  "(distinct (postIds evs) \<longrightarrow>
      (\<forall>s\<in>set (streams (exec evs initServer)). closed s \<or> \<not> running s \<longrightarrow>
         (\<forall>ff. GET (Some (sessionId s)) ff (exec evs initServer) = (UnknownSession, exec evs initServer))))
   \<and> (fst (DELETE q sv) = SuccessResponse \<longrightarrow>
        (\<forall>es ff. (\<forall>sid. q = Some sid \<longrightarrow> sid \<notin> set (postIds es)) \<longrightarrow>
           GET q ff (exec es (snd (DELETE q sv))) = (UnknownSession, exec es (snd (DELETE q sv)))))
   \<and> (distinct (postIds evs) \<longrightarrow>
      (\<forall>s\<in>set (streams (exec evs initServer)). \<forall>ff.
         (\<not> isAborted (session s) (exec evs initServer)
          \<and> (\<forall>t\<in>set (streams (exec evs initServer)). session t = session s \<longrightarrow> running t) \<longrightarrow>
            fst (GET (Some (sessionId s)) ff (exec evs initServer))
              = StreamResponse (length (streams (exec evs initServer))))
         \<and> (isAborted (session s) (exec evs initServer)
            \<or> (\<exists>t\<in>set (streams (exec evs initServer)). session t = session s \<and> \<not> running t) \<longrightarrow>
            GET (Some (sessionId s)) ff (exec evs initServer) = (UnknownSession, exec evs initServer))))
   \<and> (\<forall>i ff ff'. fst (GET q ff sv) = StreamResponse i \<and> running (streams (snd (GET q ff sv)) ! i) \<longrightarrow>
         fst (GET q ff' (snd (GET q ff sv))) = StreamResponse (Suc (length (streams sv))))"
proof (intro conjI impI allI ballI)
  fix s ff
  assume "distinct (postIds evs)" "s \<in> set (streams (exec evs initServer))" "closed s \<or> \<not> running s"
  then have "sessions (exec evs initServer) (sessionId s) = None" by (rule ended_stream_unregistered)
  then show "GET (Some (sessionId s)) ff (exec evs initServer) = (UnknownSession, exec evs initServer)"
    by (rule GET_absent)
next
  fix es ff
  assume a: "fst (DELETE q sv) = SuccessResponse"
    and f: "\<forall>sid. q = Some sid \<longrightarrow> sid \<notin> set (postIds es)"
  from DELETE_success [OF a] obtain sid where q: "q = Some sid"
    and n: "sessions (snd (DELETE q sv)) sid = None" by blast
  from f q have "sid \<notin> set (postIds es)" by blast
  from sessions_stay_absent [OF n this] q
  show "GET q ff (exec es (snd (DELETE q sv))) = (UnknownSession, exec es (snd (DELETE q sv)))"
    by (simp add: GET_absent)
next
  fix s ff
  assume d: "distinct (postIds evs)" and m: "s \<in> set (streams (exec evs initServer))"
    and c: "\<not> isAborted (session s) (exec evs initServer)
          \<and> (\<forall>t\<in>set (streams (exec evs initServer)). session t = session s \<longrightarrow> running t)"
  from c have a: "\<not> isAborted (session s) (exec evs initServer)"
    and r: "\<forall>t\<in>set (streams (exec evs initServer)). session t = session s \<longrightarrow> running t"
    by blast+
  from d m a r show "fst (GET (Some (sessionId s)) ff (exec evs initServer))
      = StreamResponse (length (streams (exec evs initServer)))"
    by (rule attach_succeeds)
next
  fix s ff
  assume "distinct (postIds evs)" "s \<in> set (streams (exec evs initServer))"
    "isAborted (session s) (exec evs initServer)
      \<or> (\<exists>t\<in>set (streams (exec evs initServer)). session t = session s \<and> \<not> running t)"
  then show "GET (Some (sessionId s)) ff (exec evs initServer) = (UnknownSession, exec evs initServer)"
    by (rule attach_fails)
next
  fix i ff ff'
  assume "fst (GET q ff sv) = StreamResponse i \<and> running (streams (snd (GET q ff sv)) ! i)"
  then show "fst (GET q ff' (snd (GET q ff sv))) = StreamResponse (Suc (length (streams sv)))"
    using GET_running by blast
qed

text \<open>
  The amended claim C3 on the server: after POST, GET and a firing that leaves no
  flammable cell the stream has ended and a further attach fails; after POST and
  DELETE an attach fails; after POST, GET and a firing that leaves a flammable cell
  the loop is waiting and a second attach gets stream 1; after POST, two GETs and a
  firing that ends stream 1, stream 0 is still waiting and the session is not aborted,
  yet a third attach fails; after POST and GET, with the loop waiting, a second attach
  gets stream 1.
\<close>

theorem C3_second_attach_witness:
  "distinct (postIds [Post sampleBody ''s'', Get (Some ''s'') (Returns [''0,0'']),
        Timer 0 (Returns \<lparr>updatedCellsMap = [], result_flammableCells = []\<rparr>)])
   \<and> \<not> running (streams (exec [Post sampleBody ''s'', Get (Some ''s'') (Returns [''0,0'']),
        Timer 0 (Returns \<lparr>updatedCellsMap = [], result_flammableCells = []\<rparr>)] initServer) ! 0)
   \<and> fst (GET (Some (sessionId (streams (exec [Post sampleBody ''s'', Get (Some ''s'') (Returns [''0,0'']),
        Timer 0 (Returns \<lparr>updatedCellsMap = [], result_flammableCells = []\<rparr>)] initServer) ! 0)))
        (Returns [])
        (exec [Post sampleBody ''s'', Get (Some ''s'') (Returns [''0,0'']),
        Timer 0 (Returns \<lparr>updatedCellsMap = [], result_flammableCells = []\<rparr>)] initServer))
      = UnknownSession
   \<and> fst (DELETE (Some ''s'') (exec [Post sampleBody ''s''] initServer)) = SuccessResponse
   \<and> fst (GET (Some ''s'') (Returns [])
        (exec [] (snd (DELETE (Some ''s'') (exec [Post sampleBody ''s''] initServer)))))
      = UnknownSession
   \<and> streams (exec [Post sampleBody ''s'', Get (Some ''s'') (Returns [''0,0'']),
        Timer 0 (Returns \<lparr>updatedCellsMap = [], result_flammableCells = [''0,0'']\<rparr>)] initServer)
      = [\<lparr>sessionId = ''s'', session = 0, flammableCells = [''0,0''], enqueued = [],
          closed = False, running = True\<rparr>]
   \<and> \<not> isAborted 0 (exec [Post sampleBody ''s'', Get (Some ''s'') (Returns [''0,0'']),
        Timer 0 (Returns \<lparr>updatedCellsMap = [], result_flammableCells = [''0,0'']\<rparr>)] initServer)
   \<and> fst (GET (Some ''s'') (Returns [''0,0''])
        (exec [Post sampleBody ''s'', Get (Some ''s'') (Returns [''0,0'']),
        Timer 0 (Returns \<lparr>updatedCellsMap = [], result_flammableCells = [''0,0'']\<rparr>)] initServer))
      = StreamResponse 1
   \<and> streams (exec [Post sampleBody ''s'', Get (Some ''s'') (Returns [''0,0'']),
        Get (Some ''s'') (Returns [''0,0'']),
        Timer 1 (Returns \<lparr>updatedCellsMap = [], result_flammableCells = []\<rparr>)] initServer)
      = [\<lparr>sessionId = ''s'', session = 0, flammableCells = [''0,0''], enqueued = [],
          closed = False, running = True\<rparr>,
         \<lparr>sessionId = ''s'', session = 0, flammableCells = [], enqueued = [EndEvent],
          closed = True, running = False\<rparr>]
   \<and> \<not> isAborted 0 (exec [Post sampleBody ''s'', Get (Some ''s'') (Returns [''0,0'']),
        Get (Some ''s'') (Returns [''0,0'']),
        Timer 1 (Returns \<lparr>updatedCellsMap = [], result_flammableCells = []\<rparr>)] initServer)
   \<and> fst (GET (Some ''s'') (Returns [''0,0''])
        (exec [Post sampleBody ''s'', Get (Some ''s'') (Returns [''0,0'']),
        Get (Some ''s'') (Returns [''0,0'']),
        Timer 1 (Returns \<lparr>updatedCellsMap = [], result_flammableCells = []\<rparr>)] initServer))
      = UnknownSession
   \<and> fst (GET (Some ''s'') (Returns [''0,0'']) (exec [Post sampleBody ''s''] initServer)) = StreamResponse 0
   \<and> fst (GET (Some ''s'') (Returns [])
        (snd (GET (Some ''s'') (Returns [''0,0'']) (exec [Post sampleBody ''s''] initServer))))
      = StreamResponse (Suc (length (streams (exec [Post sampleBody ''s''] initServer))))"
proof -
  let ?e3 = "[Post sampleBody ''s'', Get (Some ''s'') (Returns [''0,0'']),
        Timer 0 (Returns \<lparr>updatedCellsMap = [], result_flammableCells = []\<rparr>)]"
  let ?e4 = "[Post sampleBody ''s'', Get (Some ''s'') (Returns [''0,0'']),
        Timer 0 (Returns \<lparr>updatedCellsMap = [], result_flammableCells = [''0,0'']\<rparr>)]"
  let ?e5 = "[Post sampleBody ''s'', Get (Some ''s'') (Returns [''0,0'']),
        Get (Some ''s'') (Returns [''0,0'']),
        Timer 1 (Returns \<lparr>updatedCellsMap = [], result_flammableCells = []\<rparr>)]"
  let ?w = "\<lparr>sessionId = ''s'', session = 0, flammableCells = [''0,0''], enqueued = [],
          closed = False, running = True\<rparr>"
  let ?x = "\<lparr>sessionId = ''s'', session = 0, flammableCells = [], enqueued = [EndEvent],
          closed = True, running = False\<rparr>"
  let ?sv1 = "exec [Post sampleBody ''s''] initServer"
  have d: "distinct (postIds ?e3)" by simp
  have r: "\<not> running (streams (exec ?e3 initServer) ! 0)" by code_simp
  have "0 < length (streams (exec ?e3 initServer))" by code_simp
  then have m: "streams (exec ?e3 initServer) ! 0 \<in> set (streams (exec ?e3 initServer))"
    by (rule nth_mem)
  from r have c: "closed (streams (exec ?e3 initServer) ! 0) \<or> \<not> running (streams (exec ?e3 initServer) ! 0)"
    by (rule disjI2)
  from C3_second_attach [of ?e3, THEN conjunct1, rule_format, OF d m c, of "Returns []"]
  have one: "fst (GET (Some (sessionId (streams (exec ?e3 initServer) ! 0))) (Returns []) (exec ?e3 initServer))
      = UnknownSession"
    by (rule arg_cong [where f = fst, THEN trans]) simp
  have a: "fst (DELETE (Some ''s'') ?sv1) = SuccessResponse" by code_simp
  have "GET (Some ''s'') (Returns []) (exec [] (snd (DELETE (Some ''s'') ?sv1)))
      = (UnknownSession, exec [] (snd (DELETE (Some ''s'') ?sv1)))"
    by (rule C3_second_attach [of _ "Some ''s''" ?sv1, THEN conjunct2, THEN conjunct1, rule_format, OF a]) simp
  then have two: "fst (GET (Some ''s'') (Returns []) (exec [] (snd (DELETE (Some ''s'') ?sv1)))) = UnknownSession"
    by (rule arg_cong [where f = fst, THEN trans]) simp
  have d4: "distinct (postIds ?e4)" by simp
  define sv4 where "sv4 = exec ?e4 initServer"
  have s4: "streams sv4 = [?w]" unfolding sv4_def by code_simp
  have a4: "\<not> isAborted 0 sv4" unfolding sv4_def by code_simp
  have m4: "?w \<in> set (streams sv4)" by (simp add: s4)
  have c4: "\<not> isAborted (session ?w) sv4
      \<and> (\<forall>t\<in>set (streams sv4). session t = session ?w \<longrightarrow> running t)"
    using a4 by (simp add: s4)
  from C3_second_attach [of ?e4, THEN conjunct2, THEN conjunct2, THEN conjunct1, rule_format,
      OF d4 m4 [unfolded sv4_def], THEN conjunct1, rule_format, OF c4 [unfolded sv4_def],
      of "Returns [''0,0'']", folded sv4_def]
  have three: "fst (GET (Some ''s'') (Returns [''0,0'']) sv4) = StreamResponse 1"
    by (simp add: s4)
  have d5: "distinct (postIds ?e5)" by simp
  define sv5 where "sv5 = exec ?e5 initServer"
  have s5: "streams sv5 = [?w, ?x]" unfolding sv5_def by code_simp
  have a5: "\<not> isAborted 0 sv5" unfolding sv5_def by code_simp
  have m5: "?w \<in> set (streams sv5)" by (simp add: s5)
  have "?x \<in> set (streams sv5) \<and> session ?x = session ?w \<and> \<not> running ?x"
    by (simp add: s5)
  then have c5: "isAborted (session ?w) sv5
      \<or> (\<exists>t\<in>set (streams sv5). session t = session ?w \<and> \<not> running t)"
    by blast
  from C3_second_attach [of ?e5, THEN conjunct2, THEN conjunct2, THEN conjunct1, rule_format,
      OF d5 m5 [unfolded sv5_def], THEN conjunct2, rule_format, OF c5 [unfolded sv5_def],
      of "Returns [''0,0'']", folded sv5_def]
  have four: "fst (GET (Some ''s'') (Returns [''0,0'']) sv5) = UnknownSession"
    by simp
  note s4 = s4 [unfolded sv4_def] and a4 = a4 [unfolded sv4_def] and three = three [unfolded sv4_def]
    and s5 = s5 [unfolded sv5_def] and a5 = a5 [unfolded sv5_def] and four = four [unfolded sv5_def]
  have g: "fst (GET (Some ''s'') (Returns [''0,0'']) ?sv1) = StreamResponse 0" by code_simp
  have w: "running (streams (snd (GET (Some ''s'') (Returns [''0,0'']) ?sv1)) ! 0)" by code_simp
  from g w have "fst (GET (Some ''s'') (Returns [''0,0'']) ?sv1) = StreamResponse 0
      \<and> running (streams (snd (GET (Some ''s'') (Returns [''0,0'']) ?sv1)) ! 0)" by (intro conjI)
  from C3_second_attach [of _ "Some ''s''" ?sv1, THEN conjunct2, THEN conjunct2, THEN conjunct2,
      rule_format, OF this]
  have five: "fst (GET (Some ''s'') (Returns []) (snd (GET (Some ''s'') (Returns [''0,0'']) ?sv1)))
      = StreamResponse (Suc (length (streams ?sv1)))" .
  from d r one a two s4 a4 three s5 a5 four g five show ?thesis by (intro conjI)
qed

section \<open>Claim C2: no validation at session creation\<close>









end
